theory Spec2Isabelle
  imports Complex_Main "HOL-Library.Multiset" "HOL-Library.Log_Nat"
begin

section \<open>GRASP with iterated local search for the travelling salesman problem\<close>

text \<open>
  A shallow embedding of \<^verbatim>\<open>grasp.py\<close>. A tour (\<^verbatim>\<open>rotas\<close>, \<^verbatim>\<open>solucao\<close>) is a
  Python list of city indices, here a list of naturals (a negative number, which Python
  would read as an index from the end, is not a city and is outside the model). The distance matrix
  (\<^verbatim>\<open>distancias\<close>) is a list of rows. Its entries are Python numbers; they are
  modelled in exact arithmetic over any linearly ordered ring (the integers, the rationals,
  the reals), so rounding of floating-point sums is outside the model. Every exception the
  code can raise is a value \<open>Inl e\<close> of the result.
\<close>

subsection \<open>Errors and indexing\<close>

datatype error = IndexError | ValueError

text \<open>\<^verbatim>\<open>xs[i]\<close> for a non-negative index: out of range raises IndexError.\<close>

definition indice :: "'b list \<Rightarrow> nat \<Rightarrow> error + 'b" where
  "indice xs i = (if i < length xs then Inr (xs ! i) else Inl IndexError)"

text \<open>\<^verbatim>\<open>xs[-1]\<close>: the last element, IndexError on the empty list.\<close>

definition ultimo :: "'b list \<Rightarrow> error + 'b" where
  "ultimo xs = (if xs = [] then Inl IndexError else Inr (last xs))"

text \<open>\<^verbatim>\<open>distancias[a][b]\<close>: the row is read first, then the column.\<close>

definition dist :: "'a list list \<Rightarrow> nat \<Rightarrow> nat \<Rightarrow> error + 'a" where
  "dist distancias a b =
     (case indice distancias a of
        Inl e \<Rightarrow> Inl e
      | Inr linha \<Rightarrow> indice linha b)"

subsection \<open>Cost of a tour: \<^verbatim>\<open>calcular_custo\<close>\<close>

text \<open>
  The loop \<^verbatim>\<open>for i in range(len(rotas) - 1): custo += distancias[rotas[i]][rotas[i+1]]\<close>,
  over the list of the values of \<open>i\<close>, with the running total as accumulator.
\<close>

fun soma_arestas :: "'a::linordered_idom list list \<Rightarrow> nat list \<Rightarrow> nat list \<Rightarrow> 'a \<Rightarrow> error + 'a" where
  "soma_arestas distancias rotas [] custo = Inr custo"
| "soma_arestas distancias rotas (i # is) custo =
     (case indice rotas i of
        Inl e \<Rightarrow> Inl e
      | Inr a \<Rightarrow>
          (case indice rotas (i + 1) of
             Inl e \<Rightarrow> Inl e
           | Inr b \<Rightarrow>
               (case dist distancias a b of
                  Inl e \<Rightarrow> Inl e
                | Inr x \<Rightarrow> soma_arestas distancias rotas is (custo + x))))"

definition calcular_custo :: "nat list \<Rightarrow> 'a::linordered_idom list list \<Rightarrow> error + 'a" where
  "calcular_custo rotas distancias =
     (case soma_arestas distancias rotas [0..<length rotas - 1] 0 of
        Inl e \<Rightarrow> Inl e
      | Inr custo \<Rightarrow>
          (case ultimo rotas of
             Inl e \<Rightarrow> Inl e
           | Inr a \<Rightarrow>
               (case indice rotas 0 of
                  Inl e \<Rightarrow> Inl e
                | Inr b \<Rightarrow>
                    (case dist distancias a b of
                       Inl e \<Rightarrow> Inl e
                     | Inr x \<Rightarrow> Inr (custo + x)))))"

text \<open>
  A tour the matrix can evaluate: it is not empty, every city has a row, and every row of
  a city has a column for every city of the tour. A permutation of \<open>0..<n\<close> with an
  \<open>n \<times> n\<close> matrix is the intended case.
\<close>

definition rota_valida :: "'a list list \<Rightarrow> nat list \<Rightarrow> bool" where
  "rota_valida distancias rotas \<longleftrightarrow>
     rotas \<noteq> [] \<and>
     (\<forall>a \<in> set rotas. a < length distancias \<and>
        (\<forall>b \<in> set rotas. b < length (distancias ! a)))"

definition nao_negativa :: "'a::linordered_idom list list \<Rightarrow> bool" where
  "nao_negativa distancias \<longleftrightarrow> (\<forall>linha \<in> set distancias. \<forall>x \<in> set linha. 0 \<le> x)"

text \<open>The sum the specification gives for the cost, written with \<open>\<Sum>\<close>.\<close>

definition soma_ciclo :: "'a::linordered_idom list list \<Rightarrow> nat list \<Rightarrow> 'a" where
  "soma_ciclo distancias rotas =
     (\<Sum>i < length rotas - 1. distancias ! (rotas ! i) ! (rotas ! (i + 1)))
       + distancias ! (rotas ! (length rotas - 1)) ! (rotas ! 0)"

text \<open>
  A running example: the corners of a \<open>3 \<times> 4\<close> rectangle, \<open>(0,0)\<close>, \<open>(3,0)\<close>,
  \<open>(3,4)\<close>, \<open>(0,4)\<close>, with their Euclidean distances (sides 3 and 4, diagonals 5).
\<close>

definition retangulo :: "int list list" where
  "retangulo = [[0, 3, 5, 4], [3, 0, 4, 5], [5, 4, 0, 3], [4, 5, 3, 0]]"

subsection \<open>Facts about the cost\<close>

lemma dist_valida:
  "a < length distancias \<Longrightarrow> b < length (distancias ! a) \<Longrightarrow>
   dist distancias a b = Inr (distancias ! a ! b)"
  by (simp add: dist_def indice_def)

lemma soma_arestas_valida:
  assumes "\<forall>i \<in> set is. i + 1 < length rotas"
    and "\<forall>a \<in> set rotas. a < length distancias \<and> (\<forall>b \<in> set rotas. b < length (distancias ! a))"
  shows "soma_arestas distancias rotas is custo =
         Inr (custo + (\<Sum>i \<leftarrow> is. distancias ! (rotas ! i) ! (rotas ! (i + 1))))"
  using assms(1)
proof (induction "is" arbitrary: custo)
  case Nil
  then show ?case by simp
next
  case (Cons i js)
  from Cons.prems have i: "i < length rotas" "i + 1 < length rotas" by auto
  then have "rotas ! i \<in> set rotas" "rotas ! (i + 1) \<in> set rotas" by auto
  with assms(2) have "dist distancias (rotas ! i) (rotas ! (i + 1))
      = Inr (distancias ! (rotas ! i) ! (rotas ! (i + 1)))"
    by (intro dist_valida) auto
  moreover have "soma_arestas distancias rotas js c =
      Inr (c + (\<Sum>i \<leftarrow> js. distancias ! (rotas ! i) ! (rotas ! (i + 1))))" for c
    using Cons.IH Cons.prems by simp
  ultimately show ?case using i by (simp add: indice_def add.assoc)
qed

lemma calcular_custo_valida:
  assumes "rota_valida distancias rotas"
  shows "calcular_custo rotas distancias = Inr (soma_ciclo distancias rotas)"
proof -
  from assms have ne: "rotas \<noteq> []"
    and idx: "\<forall>a \<in> set rotas. a < length distancias \<and> (\<forall>b \<in> set rotas. b < length (distancias ! a))"
    by (auto simp: rota_valida_def)
  have "\<forall>i \<in> set [0..<length rotas - 1]. i + 1 < length rotas" by auto
  from soma_arestas_valida [OF this idx]
  have s: "soma_arestas distancias rotas [0..<length rotas - 1] 0 =
      Inr (\<Sum>i < length rotas - 1. distancias ! (rotas ! i) ! (rotas ! (i + 1)))"
    by (simp add: sum_list_sum_nth atLeast0LessThan)
  from ne have "last rotas \<in> set rotas" "rotas ! 0 \<in> set rotas" by auto
  with idx have "dist distancias (last rotas) (rotas ! 0) = Inr (distancias ! last rotas ! (rotas ! 0))"
    by (intro dist_valida) auto
  with s ne show ?thesis
    by (simp add: calcular_custo_def ultimo_def indice_def soma_ciclo_def last_conv_nth)
qed

lemma rota_valida_quadrada:
  assumes "rotas \<noteq> []" and "\<forall>a \<in> set rotas. a < length distancias"
    and "\<forall>linha \<in> set distancias. length linha = length distancias"
  shows "rota_valida distancias rotas"
  using assms by (auto simp: rota_valida_def)

lemma soma_ciclo_nao_negativa:
  assumes "rota_valida distancias rotas" and "nao_negativa distancias"
  shows "0 \<le> soma_ciclo distancias rotas"
proof -
  have entry: "0 \<le> distancias ! a ! b" if "a \<in> set rotas" "b \<in> set rotas" for a b
  proof -
    from assms(1) that have "a < length distancias" "b < length (distancias ! a)"
      by (auto simp: rota_valida_def)
    then have "distancias ! a \<in> set distancias" "distancias ! a ! b \<in> set (distancias ! a)"
      by auto
    with assms(2) show ?thesis by (auto simp: nao_negativa_def)
  qed
  from assms(1) have ne: "rotas \<noteq> []" by (simp add: rota_valida_def)
  have "0 \<le> (\<Sum>i < length rotas - 1. distancias ! (rotas ! i) ! (rotas ! (i + 1)))"
    by (intro sum_nonneg entry) auto
  moreover from ne have "0 \<le> distancias ! (rotas ! (length rotas - 1)) ! (rotas ! 0)"
    by (intro entry) auto
  ultimately show ?thesis by (simp add: soma_ciclo_def)
qed

subsection \<open>Claims about the cost\<close>

text \<open>
  C9. For a tour of length \<open>n \<ge> 1\<close> whose cities the matrix covers (in particular an
  \<open>n \<times> n\<close> matrix and cities below \<open>n\<close>), \<^verbatim>\<open>calcular_custo\<close> returns the sum of
  \<open>M[T[i]][T[i+1]]\<close> for \<open>i\<close> from \<open>0\<close> to \<open>n - 2\<close> plus the closing term
  \<open>M[T[n-1]][T[0]]\<close>, and this sum is not negative when no entry of the matrix is.
\<close>

theorem calcular_custo_soma:
  assumes "rota_valida distancias rotas"
  shows "calcular_custo rotas distancias =
           Inr ((\<Sum>i < length rotas - 1. distancias ! (rotas ! i) ! (rotas ! (i + 1)))
                 + distancias ! (rotas ! (length rotas - 1)) ! (rotas ! 0))
         \<and> (nao_negativa distancias \<longrightarrow>
              0 \<le> (\<Sum>i < length rotas - 1. distancias ! (rotas ! i) ! (rotas ! (i + 1)))
                 + distancias ! (rotas ! (length rotas - 1)) ! (rotas ! 0))"
  using calcular_custo_valida [OF assms] soma_ciclo_nao_negativa [OF assms]
  by (simp add: soma_ciclo_def)

theorem calcular_custo_soma_witness:
  "rota_valida retangulo [0, 1, 3, 2] \<and> nao_negativa retangulo
   \<and> calcular_custo [0, 1, 3, 2] retangulo = Inr 16"
proof -
  have v: "rota_valida retangulo [0, 1, 3, 2]"
    by (simp add: rota_valida_def retangulo_def)
  have n: "nao_negativa retangulo"
    by (simp add: nao_negativa_def retangulo_def)
  from calcular_custo_soma [OF v] v n show ?thesis
    by (simp add: retangulo_def lessThan_Suc numeral_3_eq_3)
qed

section \<open>Local search: \<^verbatim>\<open>busca_local\<close>\<close>

subsection \<open>Slices\<close>

text \<open>
  \<^verbatim>\<open>xs[j-1:i-1:-1]\<close>: for \<open>1 \<le> i\<close> and \<open>1 \<le> j\<close> the elements at the positions
  \<open>j - 1\<close> down to \<open>i\<close>, with the start clamped to the length. For \<open>i = 0\<close> the stop is
  \<open>-1\<close>, which Python reads as the last position, and the slice is empty; for \<open>j = 0\<close>
  the start is the last position. The search only calls it with \<open>1 \<le> i < j\<close>.
\<close>

definition fatia_invertida :: "'b list \<Rightarrow> nat \<Rightarrow> nat \<Rightarrow> 'b list" where
  "fatia_invertida xs i j =
     (if i = 0 then []
      else if j = 0 then rev (drop i xs)
      else rev (drop i (take j xs)))"

text \<open>\<^verbatim>\<open>xs[i:j] = ys\<close> for \<open>i \<le> j\<close>; the model returns the list after the assignment.\<close>

definition atribuir_fatia :: "'b list \<Rightarrow> nat \<Rightarrow> nat \<Rightarrow> 'b list \<Rightarrow> 'b list" where
  "atribuir_fatia xs i j ys = take i xs @ ys @ drop j xs"

text \<open>
  The candidate of the pair \<open>(i, j)\<close>:
  \<^verbatim>\<open>nova_solucao = melhor[:]; nova_solucao[i:j] = melhor[j-1:i-1:-1]\<close>.
\<close>

definition candidata :: "nat list \<Rightarrow> nat \<Rightarrow> nat \<Rightarrow> nat list" where
  "candidata melhor i j = atribuir_fatia melhor i j (fatia_invertida melhor i j)"

subsection \<open>One pass and the loop\<close>

text \<open>
  The pairs one pass visits, in order:
  \<^verbatim>\<open>for i in range(1, len(solucao) - 2): for j in range(i+1, len(solucao))\<close>.
  For \<open>n < 2\<close> Python's \<open>n - 2\<close> is negative and the range empty, as \<open>[1..<0]\<close> is.
\<close>

definition pares :: "nat \<Rightarrow> (nat \<times> nat) list" where
  "pares n = concat (map (\<lambda>i. map (\<lambda>j. (i, j)) [i + 1..<n]) [1..<n - 2])"

text \<open>
  The body of the inner loop on the state \<open>(melhor, melhor_custo, melhorou)\<close>. A candidate
  whose cost cannot be computed raises, which ends the search.
\<close>

definition passo ::
  "'a::linordered_idom list list \<Rightarrow> nat \<Rightarrow> nat \<Rightarrow> nat list \<times> 'a \<times> bool \<Rightarrow> error + nat list \<times> 'a \<times> bool" where
  "passo distancias i j st =
     (case st of (melhor, melhor_custo, melhorou) \<Rightarrow>
        if j - i = 1 then Inr st
        else
          let nova_solucao = candidata melhor i j in
          (case calcular_custo nova_solucao distancias of
             Inl e \<Rightarrow> Inl e
           | Inr novo_custo \<Rightarrow>
               if novo_custo < melhor_custo then Inr (nova_solucao, novo_custo, True)
               else Inr st))"

fun varredura ::
  "'a::linordered_idom list list \<Rightarrow> (nat \<times> nat) list \<Rightarrow> nat list \<times> 'a \<times> bool \<Rightarrow> error + nat list \<times> 'a \<times> bool" where
  "varredura distancias [] st = Inr st"
| "varredura distancias ((i, j) # ps) st =
     (case passo distancias i j st of
        Inl e \<Rightarrow> Inl e
      | Inr st' \<Rightarrow> varredura distancias ps st')"

subsection \<open>What a pass preserves\<close>

lemma mset_candidata:
  assumes "1 \<le> i" "i \<le> j"
  shows "mset (candidata melhor i j) = mset melhor"
proof -
  from assms have "take i melhor @ drop i (take j melhor) = take j melhor"
    by (simp add: drop_take take_add [symmetric])
  then have "mset (take i melhor) + mset (drop i (take j melhor)) = mset (take j melhor)"
    by (simp flip: mset_append)
  moreover have "mset (take j melhor) + mset (drop j melhor) = mset melhor"
    by (simp flip: mset_append)
  ultimately have "mset (take i melhor) + mset (drop i (take j melhor)) + mset (drop j melhor)
      = mset melhor"
    by simp
  with assms show ?thesis
    by (simp add: candidata_def atribuir_fatia_def fatia_invertida_def add.assoc)
qed

lemma passo_Inr:
  assumes "passo d i j (m, c, b) = Inr (m', c', b')"
  shows "(m', c', b') = (m, c, b) \<or>
         (m' = candidata m i j \<and> calcular_custo m' d = Inr c' \<and> c' < c \<and> b')"
  using assms by (auto simp: passo_def Let_def split: if_splits sum.splits)

lemma varredura_Inr:
  assumes "varredura d ps (m, c, b) = Inr (m', c', b')"
    and "\<forall>(i, j) \<in> set ps. 1 \<le> i \<and> i < j"
  shows "mset m' = mset m \<and> c' \<le> c \<and> (b \<longrightarrow> b') \<and>
         ((m', c', b') = (m, c, b) \<or> (calcular_custo m' d = Inr c' \<and> c' < c \<and> b'))"
  using assms
proof (induction ps arbitrary: m c b)
  case Nil
  then show ?case by simp
next
  case (Cons p ps)
  obtain i j where p: "p = (i, j)" by (cases p)
  from Cons.prems p have ij: "1 \<le> i" "i \<le> j" by auto
  from Cons.prems(1) p obtain m1 c1 b1
    where s1: "passo d i j (m, c, b) = Inr (m1, c1, b1)"
      and s2: "varredura d ps (m1, c1, b1) = Inr (m', c', b')"
    by (auto split: sum.splits)
  from passo_Inr [OF s1] mset_candidata [OF ij]
  have a: "mset m1 = mset m \<and> c1 \<le> c \<and> (b \<longrightarrow> b1) \<and>
      ((m1, c1, b1) = (m, c, b) \<or> (calcular_custo m1 d = Inr c1 \<and> c1 < c \<and> b1))"
    by auto
  from Cons.IH [OF s2] Cons.prems(2)
  have b: "mset m' = mset m1 \<and> c' \<le> c1 \<and> (b1 \<longrightarrow> b') \<and>
      ((m', c', b') = (m1, c1, b1) \<or> (calcular_custo m' d = Inr c' \<and> c' < c1 \<and> b'))"
    by simp
  from a b show ?case by auto
qed

lemma pares_iff: "(i, j) \<in> set (pares n) \<longleftrightarrow> 1 \<le> i \<and> i < n - 2 \<and> i < j \<and> j < n"
  by (auto simp: pares_def image_iff)

lemma pares_ok: "\<forall>(i, j) \<in> set (pares n). 1 \<le> i \<and> i < j"
  by (auto simp: pares_iff)

subsection \<open>The loop \<^verbatim>\<open>while melhorou\<close>\<close>

text \<open>
  Termination: the candidates are rearrangements of the tour, of which there are finitely
  many, and a pass that sets \<^verbatim>\<open>melhorou\<close> ends with a strictly lower cost that is the
  cost of such a rearrangement. So the set of costs of rearrangements below the current cost
  shrinks with every such pass.
\<close>

lemma custos_menores_finito:
  "finite {x. \<exists>p. mset p = mset m \<and> calcular_custo p d = Inr x \<and> x < c}"
proof -
  have "{x. \<exists>p. mset p = mset m \<and> calcular_custo p d = Inr x \<and> x < c}
      \<subseteq> (\<lambda>p. projr (calcular_custo p d)) ` {p. mset p = mset m}"
    by force
  then show ?thesis
    by (rule finite_subset) (simp add: mset_eq_finite)
qed

lemma varredura_diminui:
  assumes "varredura d ps (m, c, False) = Inr (m', c', True)"
    and "\<forall>(i, j) \<in> set ps. 1 \<le> i \<and> i < j"
  shows "card {x. \<exists>p. mset p = mset m' \<and> calcular_custo p d = Inr x \<and> x < c'}
       < card {x. \<exists>p. mset p = mset m \<and> calcular_custo p d = Inr x \<and> x < c}"
proof -
  from varredura_Inr [OF assms]
  have ms: "mset m' = mset m" and cc: "calcular_custo m' d = Inr c'" and lt: "c' < c"
    by auto
  let ?S = "{x. \<exists>p. mset p = mset m \<and> calcular_custo p d = Inr x \<and> x < c}"
  let ?S' = "{x. \<exists>p. mset p = mset m' \<and> calcular_custo p d = Inr x \<and> x < c'}"
  have "?S' \<subseteq> ?S" using ms lt by auto
  moreover have "c' \<in> ?S" using ms cc lt by auto
  moreover have "c' \<notin> ?S'" by simp
  ultimately have "?S' \<subset> ?S" by blast
  then show ?thesis
    by (rule psubset_card_mono [OF custos_menores_finito])
qed

text \<open>
  The loop on \<open>(solucao, melhor, melhor_custo)\<close>. Each pass starts with
  \<^verbatim>\<open>melhorou = False\<close> and ends with \<^verbatim>\<open>solucao = melhor\<close>; the loop is left, and
  \<^verbatim>\<open>melhor\<close> returned, after a pass that leaves \<^verbatim>\<open>melhorou\<close> false.
\<close>

function busca_laco ::
  "'a::linordered_idom list list \<Rightarrow> nat list \<Rightarrow> nat list \<Rightarrow> 'a \<Rightarrow> error + nat list" where
  "busca_laco distancias solucao melhor melhor_custo =
     (case varredura distancias (pares (length solucao)) (melhor, melhor_custo, False) of
        Inl e \<Rightarrow> Inl e
      | Inr (melhor', custo', melhorou) \<Rightarrow>
          if melhorou then busca_laco distancias melhor' melhor' custo'
          else Inr melhor')"
  by pat_completeness auto
termination
proof (relation "measure (\<lambda>(d, sol, m, c).
    card {x. \<exists>p. mset p = mset m \<and> calcular_custo p d = Inr x \<and> x < c})", goal_cases)
  case 1
  show ?case by simp
next
  case (2 d sol m c st m' rest c' b')
  then have "varredura d (pares (length sol)) (m, c, False) = Inr (m', c', True)"
    by simp
  from varredura_diminui [OF this pares_ok] show ?case by simp
qed

declare busca_laco.simps [simp del]

text \<open>
  \<^verbatim>\<open>busca_local\<close>: \<^verbatim>\<open>melhor = solucao\<close>, its cost, and the loop, entered with
  \<^verbatim>\<open>melhorou = True\<close>.
\<close>

definition busca_local :: "nat list \<Rightarrow> 'a::linordered_idom list list \<Rightarrow> error + nat list" where
  "busca_local solucao distancias =
     (case calcular_custo solucao distancias of
        Inl e \<Rightarrow> Inl e
      | Inr melhor_custo \<Rightarrow> busca_laco distancias solucao solucao melhor_custo)"


lemma varredura_sem_melhora:
  assumes "varredura d ps (m, c, False) = Inr (m', c', False)"
    and "\<forall>(i, j) \<in> set ps. 1 \<le> i \<and> i < j"
  shows "m' = m \<and> c' = c \<and>
         (\<forall>(i, j) \<in> set ps. j - i \<noteq> 1 \<longrightarrow>
            (\<exists>x. calcular_custo (candidata m i j) d = Inr x \<and> \<not> x < c))"
  using assms
proof (induction ps)
  case Nil
  then show ?case by simp
next
  case (Cons p ps)
  obtain i j where p: "p = (i, j)" by (cases p)
  from Cons.prems(1) p obtain m1 c1 b1
    where s1: "passo d i j (m, c, False) = Inr (m1, c1, b1)"
      and s2: "varredura d ps (m1, c1, b1) = Inr (m', c', False)"
    by (auto split: sum.splits)
  from Cons.prems(2) have ok: "\<forall>(i, j) \<in> set ps. 1 \<le> i \<and> i < j" by simp
  from varredura_Inr [OF s2 ok] have "\<not> b1" by auto
  with passo_Inr [OF s1] have same: "m1 = m" "c1 = c" "b1 = False" by auto
  from s1 same have here: "j - i \<noteq> 1 \<longrightarrow>
      (\<exists>x. calcular_custo (candidata m i j) d = Inr x \<and> \<not> x < c)"
    by (auto simp: passo_def Let_def split: if_splits sum.splits)
  from Cons.IH s2 same ok have "m' = m \<and> c' = c \<and>
      (\<forall>(i, j) \<in> set ps. j - i \<noteq> 1 \<longrightarrow>
         (\<exists>x. calcular_custo (candidata m i j) d = Inr x \<and> \<not> x < c))"
    by simp
  with here p show ?case by simp
qed

lemma rota_valida_mset:
  "mset p = mset q \<Longrightarrow> rota_valida d q \<Longrightarrow> rota_valida d p"
  by (metis mset_eq_setD mset_zero_iff rota_valida_def)

lemma varredura_valida:
  assumes "rota_valida d m" and "\<forall>(i, j) \<in> set ps. 1 \<le> i \<and> i < j"
  shows "\<exists>st. varredura d ps (m, c, b) = Inr st"
  using assms
proof (induction ps arbitrary: m c b)
  case Nil
  then show ?case by simp
next
  case (Cons p ps)
  obtain i j where p: "p = (i, j)" by (cases p)
  from Cons.prems p have ij: "1 \<le> i" "i \<le> j" by auto
  from mset_candidata [OF ij] Cons.prems(1) have vc: "rota_valida d (candidata m i j)"
    by (rule rota_valida_mset)
  then obtain x where x: "calcular_custo (candidata m i j) d = Inr x"
    using calcular_custo_valida by blast
  then have "\<exists>m1 c1 b1. passo d i j (m, c, b) = Inr (m1, c1, b1) \<and>
      (m1 = m \<or> m1 = candidata m i j)"
    by (auto simp: passo_def Let_def)
  then obtain m1 c1 b1 where s1: "passo d i j (m, c, b) = Inr (m1, c1, b1)"
    and m1: "m1 = m \<or> m1 = candidata m i j"
    by blast
  from m1 vc Cons.prems(1) have "rota_valida d m1" by auto
  from Cons.IH [OF this, of c1 b1] Cons.prems(2) s1 p show ?case by simp
qed

text \<open>The invariant of the loop and what holds when it returns.\<close>

lemma busca_laco_Inr:
  assumes "busca_laco d sol m c = Inr r"
    and "length sol = length m" and "calcular_custo m d = Inr c"
  shows "mset r = mset m \<and>
         (\<exists>c'. calcular_custo r d = Inr c' \<and> c' \<le> c \<and>
            varredura d (pares (length r)) (r, c', False) = Inr (r, c', False))"
  using assms
proof (induction d sol m c rule: busca_laco.induct)
  case (1 d sol m c)
  from "1.prems"(1) obtain m' c' b'
    where v: "varredura d (pares (length sol)) (m, c, False) = Inr (m', c', b')"
    by (subst (asm) busca_laco.simps) (auto split: sum.splits)
  from varredura_Inr [OF v pares_ok]
  have ms: "mset m' = mset m" and le: "c' \<le> c"
    and cc: "calcular_custo m' d = Inr c'"
    using "1.prems"(3) by auto
  from ms have len: "length m' = length m" by (rule mset_eq_length)
  show ?case
  proof (cases b')
    case True
    with "1.prems"(1) v have "busca_laco d m' m' c' = Inr r"
      by (subst (asm) busca_laco.simps) simp
    from "1.IH" [OF v refl refl True this refl cc] ms le show ?thesis by auto
  next
    case False
    with "1.prems"(1) v have r: "r = m'"
      by (subst (asm) busca_laco.simps) simp
    from False have bf: "b' = False" by simp
    from varredura_sem_melhora [OF v [unfolded bf] pares_ok]
    have "m' = m" "c' = c" by auto
    with v False r "1.prems"(2,3) show ?thesis by auto
  qed
qed

lemma busca_laco_valida:
  assumes "rota_valida d m"
  shows "\<exists>r. busca_laco d sol m c = Inr r"
  using assms
proof (induction d sol m c rule: busca_laco.induct)
  case (1 d sol m c)
  from varredura_valida [OF "1.prems" pares_ok] obtain m' c' b'
    where v: "varredura d (pares (length sol)) (m, c, False) = Inr (m', c', b')"
    by (metis prod_cases3)
  from varredura_Inr [OF v pares_ok] "1.prems" have val: "rota_valida d m'"
    by (auto intro: rota_valida_mset)
  show ?case
  proof (cases b')
    case True
    from "1.IH" [OF v refl refl True val] obtain r where "busca_laco d m' m' c' = Inr r" ..
    with v True show ?thesis by (subst busca_laco.simps) simp
  next
    case False
    with v show ?thesis by (subst busca_laco.simps) simp
  qed
qed

subsection \<open>Claims about the local search\<close>

text \<open>
  The 2-opt move of the specification: the tour with the segment of the positions \<open>a\<close> to
  \<open>b\<close> (both included) reversed.
\<close>

definition reverter_segmento :: "nat list \<Rightarrow> nat \<Rightarrow> nat \<Rightarrow> nat list" where
  "reverter_segmento rotas a b =
     take a rotas @ rev (take (b + 1 - a) (drop a rotas)) @ drop (b + 1) rotas"

lemma busca_local_Inr:
  assumes "busca_local solucao d = Inr r"
  shows "\<exists>c c'. calcular_custo solucao d = Inr c \<and> calcular_custo r d = Inr c' \<and> c' \<le> c \<and>
           mset r = mset solucao \<and>
           varredura d (pares (length r)) (r, c', False) = Inr (r, c', False)"
proof -
  from assms obtain c where c: "calcular_custo solucao d = Inr c"
    and l: "busca_laco d solucao solucao c = Inr r"
    by (auto simp: busca_local_def split: sum.splits)
  from busca_laco_Inr [OF l refl c] c show ?thesis by auto
qed

lemma busca_local_valida:
  assumes "rota_valida d solucao"
  shows "\<exists>r. busca_local solucao d = Inr r"
  using calcular_custo_valida [OF assms] busca_laco_valida [OF assms]
  by (simp add: busca_local_def)

text \<open>
  C2. Whenever \<^verbatim>\<open>busca_local\<close> returns a tour, the cost of that tour is at most the cost
  of the input; and it does return a tour for every tour the matrix covers.
\<close>

theorem busca_local_nao_piora:
  "(rota_valida distancias solucao \<longrightarrow> (\<exists>r. busca_local solucao distancias = Inr r)) \<and>
   (\<forall>r. busca_local solucao distancias = Inr r \<longrightarrow>
      (\<exists>c c'. calcular_custo solucao distancias = Inr c \<and>
               calcular_custo r distancias = Inr c' \<and> c' \<le> c))"
  using busca_local_valida [of distancias solucao] busca_local_Inr [of solucao distancias]
  by blast

theorem busca_local_nao_piora_witness:
  "rota_valida retangulo [0, 2, 1, 3] \<and>
   busca_local [0, 2, 1, 3] retangulo = Inr [0, 1, 2, 3] \<and>
   calcular_custo [0, 2, 1, 3] retangulo = Inr 18 \<and>
   calcular_custo [0, 1, 2, 3] retangulo = Inr 14 \<and>
   (\<exists>c c'. calcular_custo [0, 2, 1, 3] retangulo = Inr c \<and>
            calcular_custo [0, 1, 2, 3] retangulo = Inr c' \<and> c' \<le> c)"
proof -
  have v: "rota_valida retangulo [0, 2, 1, 3]" by code_simp
  have r: "busca_local [0, 2, 1, 3] retangulo = Inr [0, 1, 2, 3]" by code_simp
  have c: "calcular_custo [0, 2, 1, 3] retangulo = Inr 18"
    "calcular_custo [0, 1, 2, 3] retangulo = Inr 14" by code_simp+
  from busca_local_nao_piora [of retangulo "[0, 2, 1, 3]"] r
  have "\<exists>c c'. calcular_custo [0, 2, 1, 3] retangulo = Inr c \<and>
            calcular_custo [0, 1, 2, 3] retangulo = Inr c' \<and> c' \<le> c"
    by blast
  with v r c show ?thesis by blast
qed

text \<open>
  C6. The loop of \<^verbatim>\<open>busca_local\<close> terminates. An accepted move replaces the cost by a
  strictly smaller one, the cost of a rearrangement of the tour; the passes that accept a
  move form a well-founded relation on \<open>(melhor, melhor_custo)\<close>, so there is no infinite
  sequence of them; and for every tour the matrix covers the search returns a tour on which
  one more pass accepts nothing.
\<close>

theorem busca_local_termina:
  "(\<forall>m c b m' c' b'. passo distancias i j (m, c, b) = Inr (m', c', b') \<longrightarrow>
      (m', c', b') = (m, c, b) \<or> (c' < c \<and> calcular_custo m' distancias = Inr c' \<and> b')) \<and>
   wf {((m', c'), (m, c)).
        varredura distancias (pares n) (m, c, False) = Inr (m', c', True)} \<and>
   (rota_valida distancias solucao \<longrightarrow>
      (\<exists>r c. busca_local solucao distancias = Inr r \<and>
             calcular_custo r distancias = Inr c \<and>
             varredura distancias (pares (length r)) (r, c, False) = Inr (r, c, False)))"
proof (intro conjI)
  show "\<forall>m c b m' c' b'. passo distancias i j (m, c, b) = Inr (m', c', b') \<longrightarrow>
      (m', c', b') = (m, c, b) \<or> (c' < c \<and> calcular_custo m' distancias = Inr c' \<and> b')"
    using passo_Inr [of distancias i j] by blast
next
  let ?f = "\<lambda>(m, c). card {x. \<exists>p. mset p = mset m \<and>
      calcular_custo p distancias = Inr x \<and> x < c}"
  have "{((m', c'), (m, c)).
        varredura distancias (pares n) (m, c, False) = Inr (m', c', True)} \<subseteq> measure ?f"
    using varredura_diminui [OF _ pares_ok, of distancias n] by auto
  then show "wf {((m', c'), (m, c)).
        varredura distancias (pares n) (m, c, False) = Inr (m', c', True)}"
    by (rule wf_subset [OF wf_measure])
next
  show "rota_valida distancias solucao \<longrightarrow>
      (\<exists>r c. busca_local solucao distancias = Inr r \<and>
             calcular_custo r distancias = Inr c \<and>
             varredura distancias (pares (length r)) (r, c, False) = Inr (r, c, False))"
    using busca_local_valida [of distancias solucao] busca_local_Inr [of solucao distancias]
    by blast
qed

theorem busca_local_termina_witness:
  "passo retangulo 1 3 ([0, 2, 1, 3], 18, False) = Inr ([0, 1, 2, 3], 14, True) \<and>
   (14 :: int) < 18 \<and>
   rota_valida retangulo [0, 2, 1, 3] \<and>
   busca_local [0, 2, 1, 3] retangulo = Inr [0, 1, 2, 3] \<and>
   varredura retangulo (pares 4) ([0, 1, 2, 3], 14, False) = Inr ([0, 1, 2, 3], 14, False)"
proof -
  have p: "passo retangulo 1 3 ([0, 2, 1, 3], 18, False) = Inr ([0, 1, 2, 3], 14, True)"
    by code_simp
  have v: "rota_valida retangulo [0, 2, 1, 3]" by code_simp
  have r: "busca_local [0, 2, 1, 3] retangulo = Inr [0, 1, 2, 3]" by code_simp
  from busca_local_termina [of retangulo 1 3 4 "[0, 2, 1, 3]"] p
  have "(14 :: int) < 18" by blast
  moreover
  have "varredura retangulo (pares 4) ([0, 1, 2, 3], 14, False) = Inr ([0, 1, 2, 3], 14, False)"
    by code_simp
  ultimately show ?thesis using p v r by blast
qed

text \<open>
  C7. \<^verbatim>\<open>busca_local\<close> applied to a tour it returned returns that same tour, so a tour of
  the same cost: the first pass of the second run accepts no move.
\<close>

theorem busca_local_idempotente:
  assumes "busca_local solucao distancias = Inr r"
  shows "busca_local r distancias = Inr r \<and>
         (\<exists>c. calcular_custo r distancias = Inr c \<and>
              varredura distancias (pares (length r)) (r, c, False) = Inr (r, c, False))"
proof -
  from busca_local_Inr [OF assms] obtain c
    where c: "calcular_custo r distancias = Inr c"
      and v: "varredura distancias (pares (length r)) (r, c, False) = Inr (r, c, False)"
    by blast
  from v have "busca_laco distancias r r c = Inr r"
    by (subst busca_laco.simps) simp
  with c v show ?thesis by (auto simp: busca_local_def)
qed

theorem busca_local_idempotente_witness:
  "busca_local [0, 2, 1, 3] retangulo = Inr [0, 1, 2, 3] \<and>
   busca_local [0, 1, 2, 3] retangulo = Inr [0, 1, 2, 3]"
proof -
  have r: "busca_local [0, 2, 1, 3] retangulo = Inr [0, 1, 2, 3]" by code_simp
  from busca_local_idempotente [OF r] r show ?thesis by blast
qed

text \<open>
  C1. The tour \<^verbatim>\<open>busca_local\<close> returns need not be a 2-opt local optimum. On the
  rectangle, from the tour \<open>0, 1, 3, 2\<close> (both diagonals, cost 16) the only pair a pass
  visits is \<open>(1, 3)\<close>, whose candidate \<open>0, 3, 1, 2\<close> costs 18, so the search returns
  its input. Reversing the segment of the positions 2 to 3 gives the perimeter
  \<open>0, 1, 2, 3\<close> of cost 14: the move that replaces the closing edge is never tried.
\<close>

theorem busca_local_nao_otimo_2opt:
  "busca_local [0, 1, 3, 2] retangulo = Inr [0, 1, 3, 2] \<and>
   pares 4 = [(1, 2), (1, 3)] \<and>
   candidata [0, 1, 3, 2] 1 3 = [0, 3, 1, 2] \<and>
   calcular_custo [0, 3, 1, 2] retangulo = Inr 18 \<and>
   calcular_custo [0, 1, 3, 2] retangulo = Inr 16 \<and>
   reverter_segmento [0, 1, 3, 2] 2 3 = [0, 1, 2, 3] \<and>
   calcular_custo [0, 1, 2, 3] retangulo = Inr 14"
  by code_simp

section \<open>Randomised greedy construction: \<^verbatim>\<open>construir_solucao\<close>\<close>

subsection \<open>The random generator\<close>

text \<open>
  Python's module \<^verbatim>\<open>random\<close> keeps a generator whose state every call advances. The
  model threads that state \<open>g\<close> and takes the two operations the code depends on as
  parameters: \<open>randbelow g n\<close>, the draw below \<open>n\<close> behind \<^verbatim>\<open>random.choice\<close>, and
  \<open>sample2 g n\<close>, the result of \<^verbatim>\<open>random.sample(range(n), 2)\<close>. Their distribution
  belongs to the library; what the code relies on is their contract, \<open>gerador_ok\<close>: a draw
  below \<open>n\<close> is below \<open>n\<close>, and a sample is two different positions below \<open>n\<close>.
\<close>

record 'g aleatorio =
  randbelow :: "'g \<Rightarrow> nat \<Rightarrow> nat \<times> 'g"
  sample2 :: "'g \<Rightarrow> nat \<Rightarrow> (nat \<times> nat) \<times> 'g"

definition gerador_ok :: "'g aleatorio \<Rightarrow> bool" where
  "gerador_ok rnd \<longleftrightarrow>
     (\<forall>g n. 0 < n \<longrightarrow> fst (randbelow rnd g n) < n) \<and>
     (\<forall>g n. 2 \<le> n \<longrightarrow>
        (case fst (sample2 rnd g n) of (i, j) \<Rightarrow> i < n \<and> j < n \<and> i \<noteq> j))"

text \<open>
  \<^verbatim>\<open>random.choice(seq)\<close> is \<^verbatim>\<open>seq[randbelow(len(seq))]\<close> and raises IndexError on an
  empty sequence.
\<close>

definition choice :: "'g aleatorio \<Rightarrow> 'g \<Rightarrow> 'b list \<Rightarrow> error + 'b \<times> 'g" where
  "choice rnd g seq =
     (if seq = [] then Inl IndexError
      else
        (case randbelow rnd g (length seq) of
           (r, g') \<Rightarrow>
             (case indice seq r of
                Inl e \<Rightarrow> Inl e
              | Inr x \<Rightarrow> Inr (x, g'))))"

text \<open>\<^verbatim>\<open>xs.remove(x)\<close>: the first occurrence is removed; ValueError when there is none.\<close>

definition remover :: "'b \<Rightarrow> 'b list \<Rightarrow> error + 'b list" where
  "remover x xs = (if x \<in> set xs then Inr (remove1 x xs) else Inl ValueError)"

subsection \<open>One step and the loop\<close>

text \<open>
  \<^verbatim>\<open>[(cidade, distancias[cidade_atual][cidade]) for cidade in nao_visitados]\<close>
\<close>

fun lista_custos :: "'a list list \<Rightarrow> nat \<Rightarrow> nat list \<Rightarrow> error + (nat \<times> 'a) list" where
  "lista_custos distancias cidade_atual [] = Inr []"
| "lista_custos distancias cidade_atual (cidade # resto) =
     (case dist distancias cidade_atual cidade of
        Inl e \<Rightarrow> Inl e
      | Inr x \<Rightarrow>
          (case lista_custos distancias cidade_atual resto of
             Inl e \<Rightarrow> Inl e
           | Inr custos \<Rightarrow> Inr ((cidade, x) # custos)))"

subsection \<open>Double-precision arithmetic\<close>

text \<open>
  The parameter \<^verbatim>\<open>alpha\<close> is a Python float, a double, and the size of the restricted
  candidate list comes from the double-precision product \<^verbatim>\<open>len(custos) * alpha\<close>. The
  model keeps real numbers and rounds where Python does: to the nearest number with a
  significand of 53 binary digits, a tie going to the even significand. The range of the
  exponent is not modelled: a product beyond the largest double (about \<open>1.8 \<times> 10\<^sup>3\<^sup>0\<^sup>8\<close>)
  needs \<open>alpha\<close> above 1 or more cities than a Python list can hold, and below the smallest
  normal double every product truncates to 0 on either grid. The values \<^verbatim>\<open>inf\<close> and
  \<^verbatim>\<open>nan\<close> are not reals and are outside the model.
\<close>

text \<open>\<open>2\<close> to an integer power, the spacing of the doubles at an exponent.\<close>

definition escala :: "int \<Rightarrow> real" where
  "escala g = (if 0 \<le> g then 2 ^ nat g else 1 / 2 ^ nat (- g))"

text \<open>
  The binary exponent of a positive real: the \<open>e\<close> with \<open>2\<^sup>e \<le> a < 2\<^sup>e\<^sup>+\<^sup>1\<close>, computed from
  the number of binary digits of \<open>\<lfloor>a\<rfloor>\<close>, or of \<open>\<lceil>1 / a\<rceil> - 1\<close> when \<open>a < 1\<close>.
\<close>

definition expoente :: "real \<Rightarrow> int" where
  "expoente a =
     (if 1 \<le> a then int (floorlog 2 (nat \<lfloor>a\<rfloor>)) - 1
      else - int (floorlog 2 (nat (\<lceil>1 / a\<rceil> - 1))))"

text \<open>The nearest integer, a tie going to the even one.\<close>

definition inteiro_proximo :: "real \<Rightarrow> int" where
  "inteiro_proximo x =
     (let n = \<lfloor>x\<rfloor>; r = x - of_int n in
      if r < 1 / 2 then n
      else if 1 / 2 < r then n + 1
      else if even n then n else n + 1)"

text \<open>
  The nearest double: \<open>x\<close> scaled so that its integer part has 53 binary digits, rounded
  to the nearest integer (ties to even) and scaled back.
\<close>

definition arredondar :: "real \<Rightarrow> real" where
  "arredondar x =
     (if x = 0 then 0
      else
        let g = expoente \<bar>x\<bar> - 52 in
        sgn x * of_int (inteiro_proximo (\<bar>x\<bar> / escala g)) * escala g)"

text \<open>
  \<^verbatim>\<open>len(custos) * alpha\<close>, an integer times a float: the integer is converted to a double
  and the two doubles are multiplied, each step rounded. A real \<open>alpha\<close> that is not a
  double stands for the double nearest to it, as the literal \<^verbatim>\<open>0.7\<close> does.
\<close>

definition produto :: "nat \<Rightarrow> real \<Rightarrow> real" where
  "produto k alpha = arredondar (arredondar (real k) * arredondar alpha)"

subsection \<open>The restricted candidate list\<close>

text \<open>\<^verbatim>\<open>int(x)\<close> truncates towards zero.\<close>

definition truncar :: "real \<Rightarrow> int" where
  "truncar x = (if 0 \<le> x then \<lfloor>x\<rfloor> else \<lceil>x\<rceil>)"

text \<open>\<^verbatim>\<open>xs[:limite]\<close>; a negative limit counts from the end.\<close>

definition fatia_ate :: "'b list \<Rightarrow> int \<Rightarrow> 'b list" where
  "fatia_ate xs limite =
     (if 0 \<le> limite then take (nat limite) xs
      else take (nat (int (length xs) + limite)) xs)"

text \<open>
  The restricted candidate list: \<^verbatim>\<open>custos.sort(key=lambda x: x[1])\<close>, a stable sort as
  \<open>sort_key\<close> is, then \<^verbatim>\<open>limite = int(len(custos) * alpha) + 1\<close> and
  \<^verbatim>\<open>rcl = custos[:limite]\<close>.
\<close>

definition lista_restrita :: "real \<Rightarrow> (nat \<times> 'a::linorder) list \<Rightarrow> (nat \<times> 'a) list" where
  "lista_restrita alpha custos =
     (let ordenados = sort_key snd custos;
          limite = truncar (produto (length ordenados) alpha) + 1
      in fatia_ate ordenados limite)"

text \<open>The loop \<^verbatim>\<open>while nao_visitados\<close>.\<close>

function construir_laco ::
  "'g aleatorio \<Rightarrow> 'a::linorder list list \<Rightarrow> real \<Rightarrow> 'g \<Rightarrow> nat \<Rightarrow> nat list \<Rightarrow> nat list
     \<Rightarrow> error + nat list \<times> 'g" where
  "construir_laco rnd distancias alpha g cidade_atual solucao nao_visitados =
     (if nao_visitados = [] then Inr (solucao, g)
      else
        (case lista_custos distancias cidade_atual nao_visitados of
           Inl e \<Rightarrow> Inl e
         | Inr custos \<Rightarrow>
             (case choice rnd g (lista_restrita alpha custos) of
                Inl e \<Rightarrow> Inl e
              | Inr (escolhido, g') \<Rightarrow>
                  (case remover (fst escolhido) nao_visitados of
                     Inl e \<Rightarrow> Inl e
                   | Inr restantes \<Rightarrow>
                       construir_laco rnd distancias alpha g' (fst escolhido)
                         (solucao @ [fst escolhido]) restantes))))"
  by pat_completeness auto
termination
  by (relation "measure (\<lambda>(rnd, d, alpha, g, atual, sol, nv). length nv)")
    (auto simp: remover_def length_remove1 split: if_splits)

declare construir_laco.simps [simp del]

definition construir_solucao ::
  "'g aleatorio \<Rightarrow> 'g \<Rightarrow> 'a::linorder list list \<Rightarrow> real \<Rightarrow> error + nat list \<times> 'g" where
  "construir_solucao rnd g distancias alpha =
     (let n = length distancias; nao_visitados = [0..<n] in
      (case choice rnd g nao_visitados of
         Inl e \<Rightarrow> Inl e
       | Inr (cidade_atual, g') \<Rightarrow>
           (case remover cidade_atual nao_visitados of
              Inl e \<Rightarrow> Inl e
            | Inr restantes \<Rightarrow>
                construir_laco rnd distancias alpha g' cidade_atual [cidade_atual] restantes)))"

text \<open>A generator for the examples: a counter, reduced modulo the bound.\<close>

definition contador :: "nat aleatorio" where
  "contador = \<lparr> randbelow = (\<lambda>g n. (g mod n, g + 1)),
                sample2 = (\<lambda>g n. ((g mod n, (g mod n + 1) mod n), g + 1)) \<rparr>"


text \<open>An \<open>n \<times> n\<close> matrix: every row is as long as the list of rows.\<close>

definition quadrada :: "'a list list \<Rightarrow> bool" where
  "quadrada distancias \<longleftrightarrow> (\<forall>linha \<in> set distancias. length linha = length distancias)"

subsection \<open>Facts about the construction\<close>

lemma lista_custos_Inr:
  "lista_custos d a nv = Inr custos \<Longrightarrow>
   map fst custos = nv \<and> (\<forall>p \<in> set custos. dist d a (fst p) = Inr (snd p))"
  by (induction nv arbitrary: custos) (auto split: sum.splits)

lemma lista_custos_total:
  assumes "a < length d" and "\<forall>c \<in> set nv. c < length (d ! a)"
  shows "\<exists>custos. lista_custos d a nv = Inr custos"
  using assms(2) by (induction nv) (auto simp: dist_valida [OF assms(1)])

lemma choice_Inr:
  assumes "choice rnd g seq = Inr (x, g')"
  shows "\<exists>r < length seq. randbelow rnd g (length seq) = (r, g') \<and> x = seq ! r"
  using assms
  by (auto simp: choice_def indice_def split: if_splits prod.splits)

lemma choice_sorteio:
  assumes "randbelow rnd g (length seq) = (r, g')" and "r < length seq"
  shows "choice rnd g seq = Inr (seq ! r, g')"
  using assms by (auto simp: choice_def indice_def)

lemma choice_total:
  assumes "gerador_ok rnd" and "seq \<noteq> []"
  shows "\<exists>x g'. choice rnd g seq = Inr (x, g')"
proof -
  from assms have "fst (randbelow rnd g (length seq)) < length seq"
    by (simp add: gerador_ok_def)
  with assms(2) show ?thesis
    by (auto simp: choice_def indice_def split: prod.splits)
qed

text \<open>
  Rounding: the exponent is the right one, the rounded value has a significand of 53 binary
  digits and lies within half a spacing of the exact value; sign and integers below
  \<open>2\<^sup>5\<^sup>3\<close> are kept.
\<close>

lemma escala_pos: "0 < escala g"
  by (simp add: escala_def)

lemma inteiro_proximo_of_int: "inteiro_proximo (of_int z) = z"
  by (simp add: inteiro_proximo_def)

lemma inteiro_proximo_nonneg:
  assumes "0 \<le> x"
  shows "0 \<le> inteiro_proximo x"
proof -
  from assms have "0 \<le> \<lfloor>x\<rfloor>" by simp
  then show ?thesis by (simp add: inteiro_proximo_def Let_def)
qed

lemma arredondar_nonneg:
  assumes "0 \<le> x"
  shows "0 \<le> arredondar x"
proof (cases "x = 0")
  case True
  then show ?thesis by (simp add: arredondar_def)
next
  case False
  with assms have x: "0 < x" by simp
  let ?g = "expoente \<bar>x\<bar> - 52"
  from x escala_pos [of ?g] have "0 \<le> \<bar>x\<bar> / escala ?g" by simp
  then have "0 \<le> inteiro_proximo (\<bar>x\<bar> / escala ?g)" by (rule inteiro_proximo_nonneg)
  with x escala_pos [of ?g] show ?thesis
    by (simp add: arredondar_def Let_def)
qed

lemma escala_neg: "escala (- int m) = 1 / 2 ^ m"
proof (cases "m = 0")
  case True
  then show ?thesis by (simp add: escala_def)
next
  case False
  then have "\<not> 0 \<le> - int m" by simp
  then show ?thesis by (simp add: escala_def)
qed

lemma arredondar_nat:
  assumes "n < 2 ^ 53"
  shows "arredondar (real n) = real n"
proof (cases "n = 0")
  case True
  then show ?thesis by (simp add: arredondar_def)
next
  case False
  then have n: "0 < n" "1 \<le> real n" by simp_all
  have a: "\<bar>real n\<bar> = real n" by simp
  let ?g = "expoente (real n) - 52"
  from assms have "floorlog 2 n \<le> 53" by (simp add: floorlog_le_iff)
  moreover from n have "expoente (real n) = int (floorlog 2 n) - 1"
    by (simp add: expoente_def)
  ultimately have "?g \<le> 0" by simp
  define m where "m = nat (- ?g)"
  with \<open>?g \<le> 0\<close> have g: "?g = - int m" by simp
  have "real n / escala ?g = of_int (int (n * 2 ^ m))"
    unfolding g escala_neg by simp
  then have "inteiro_proximo (real n / escala ?g) = int (n * 2 ^ m)"
    by (simp only: inteiro_proximo_of_int)
  moreover from n have "sgn (real n) = 1" by simp
  ultimately have "arredondar (real n) = real_of_int (int (n * 2 ^ m)) * escala ?g"
    using n by (simp add: arredondar_def Let_def a del: of_nat_mult of_nat_power)
  also have "\<dots> = real n" unfolding g escala_neg by simp
  finally show ?thesis .
qed

lemma produto_nonneg: "0 \<le> alpha \<Longrightarrow> 0 \<le> produto k alpha"
  by (simp add: produto_def arredondar_nonneg)

lemma produto_zero: "produto k 0 = 0"
  by (simp add: produto_def arredondar_def)

lemma produto_um:
  assumes "k < 2 ^ 53"
  shows "produto k 1 = real k"
proof -
  have "arredondar 1 = 1" using arredondar_nat [of 1] by simp
  with arredondar_nat [OF assms] show ?thesis by (simp add: produto_def)
qed

lemma escala_pot: "escala (int m) = 2 ^ m"
  by (simp add: escala_def)

lemma escala_suc: "escala (g + 1) = 2 * escala g"
proof (cases "0 \<le> g")
  case True
  then show ?thesis by (simp add: escala_def nat_add_distrib)
next
  case False
  define m where "m = nat (- g - 1)"
  with False have g: "g = - int (Suc m)" by simp
  have "g + 1 = - int m" by (simp add: g)
  then have "escala (g + 1) = 1 / 2 ^ m" by (simp only: escala_neg)
  moreover have "escala g = 1 / 2 ^ Suc m" by (simp only: g escala_neg)
  ultimately show ?thesis by simp
qed

lemma inteiro_proximo_perto: "\<bar>of_int (inteiro_proximo x) - x\<bar> \<le> 1 / 2"
proof -
  have "of_int \<lfloor>x\<rfloor> \<le> x" "x < of_int \<lfloor>x\<rfloor> + 1" by linarith+
  then show ?thesis by (auto simp: inteiro_proximo_def Let_def)
qed

lemma pot_le_real:
  assumes "(2::nat) ^ k \<le> n"
  shows "(2::real) ^ k \<le> real n"
proof -
  from assms have "real (2 ^ k) \<le> real n" by (simp only: of_nat_le_iff)
  then show ?thesis by simp
qed

lemma pot_gt_real:
  assumes "n < (2::nat) ^ k"
  shows "real n + 1 \<le> 2 ^ k"
proof -
  from assms have "n + 1 \<le> 2 ^ k" by simp
  then have "real (n + 1) \<le> real (2 ^ k)" by (simp only: of_nat_le_iff)
  then show ?thesis by simp
qed

lemma floorlog_limites:
  assumes "0 < n"
  shows "0 < floorlog 2 n \<and> 2 ^ (floorlog 2 n - 1) \<le> n \<and> n < 2 ^ floorlog 2 n"
proof -
  from assms have "0 < floorlog 2 n" by (simp add: floorlog_def)
  moreover from floorlog_bounds [of n 2] assms
  have "2 ^ (floorlog 2 n - 1) \<le> n \<and> n < 2 ^ floorlog 2 n" by simp
  ultimately show ?thesis by simp
qed

lemma expoente_correto:
  assumes "0 < x"
  shows "escala (expoente x) \<le> x \<and> x < escala (expoente x + 1)"
proof (cases "1 \<le> x")
  case True
  define n where "n = nat \<lfloor>x\<rfloor>"
  from True have "1 \<le> \<lfloor>x\<rfloor>" by simp
  then have n0: "0 < n" "real n = of_int \<lfloor>x\<rfloor>" by (simp_all add: n_def)
  have "of_int \<lfloor>x\<rfloor> \<le> x" "x < of_int \<lfloor>x\<rfloor> + 1" by linarith+
  with n0 have n: "0 < n" "real n \<le> x" "x < real n + 1" by simp_all
  define l where "l = floorlog 2 n"
  from floorlog_limites [OF n(1)]
  have l: "0 < l" and b: "2 ^ (l - 1) \<le> n" "n < 2 ^ l"
    unfolding l_def by blast+
  from True have e: "expoente x = int (l - 1)" using l
    by (simp add: expoente_def n_def l_def)
  from l have e1: "expoente x + 1 = int l" by (simp add: e)
  from b(1) have "(2::real) ^ (l - 1) \<le> real n" by (rule pot_le_real)
  with n(2) have "(2::real) ^ (l - 1) \<le> x" by linarith
  then have lo: "escala (expoente x) \<le> x" by (simp only: e escala_pot)
  from b(2) have "real n + 1 \<le> 2 ^ l" by (rule pot_gt_real)
  with n(3) have "x < 2 ^ l" by linarith
  then have "x < escala (expoente x + 1)" by (simp only: e1 escala_pot)
  with lo show ?thesis ..
next
  case False
  with assms have x: "0 < x" "x < 1" by simp_all
  define y where "y = 1 / x"
  from x have y: "1 < y" by (simp add: y_def)
  define m where "m = nat (\<lceil>y\<rceil> - 1)"
  from y have c: "2 \<le> \<lceil>y\<rceil>" by linarith
  then have m: "0 < m" "\<lceil>y\<rceil> = int m + 1" by (simp_all add: m_def)
  define l where "l = floorlog 2 m"
  from floorlog_limites [OF m(1)]
  have l: "0 < l" and b: "2 ^ (l - 1) \<le> m" "m < 2 ^ l"
    unfolding l_def by blast+
  from False have e: "expoente x = - int l"
    by (simp add: expoente_def l_def m_def y_def)
  have "y \<le> of_int \<lceil>y\<rceil>" by linarith
  with m(2) have "y \<le> real m + 1" by simp
  moreover from b(2) have "real m + 1 \<le> 2 ^ l" by (rule pot_gt_real)
  ultimately have yl: "y \<le> 2 ^ l" by linarith
  have "of_int \<lceil>y\<rceil> - 1 < y" by linarith
  with m(2) have "real m < y" by simp
  moreover from b(1) have "(2::real) ^ (l - 1) \<le> real m" by (rule pot_le_real)
  ultimately have yg: "2 ^ (l - 1) < y" by linarith
  from yl x have "1 \<le> 2 ^ l * x"
    by (simp add: y_def pos_divide_le_eq)
  then have lo: "1 / 2 ^ l \<le> x"
    by (simp add: pos_divide_le_eq mult.commute)
  from yg x have "2 ^ (l - 1) * x < 1"
    by (simp add: y_def pos_less_divide_eq)
  then have hi: "x < 1 / 2 ^ (l - 1)"
    by (simp add: pos_less_divide_eq mult.commute)
  from l have "- int l + 1 = - int (l - 1)" by simp
  then have "escala (expoente x + 1) = 1 / 2 ^ (l - 1)" by (simp only: e escala_neg)
  moreover have "escala (expoente x) = 1 / 2 ^ l" by (simp only: e escala_neg)
  ultimately show ?thesis using lo hi by simp
qed

lemma escala_soma: "escala (g + int m) = 2 ^ m * escala g"
proof (induction m)
  case 0
  then show ?case by simp
next
  case (Suc m)
  have "g + int (Suc m) = (g + int m) + 1" by simp
  then have "escala (g + int (Suc m)) = 2 * escala (g + int m)"
    by (simp only: escala_suc)
  with Suc show ?case by simp
qed

lemma inteiro_proximo_limites:
  "\<lfloor>x\<rfloor> \<le> inteiro_proximo x \<and> inteiro_proximo x \<le> \<lfloor>x\<rfloor> + 1"
  by (simp add: inteiro_proximo_def Let_def)

lemma arredondar_significando:
  assumes "x \<noteq> 0"
  shows "\<exists>z. arredondar x = sgn x * of_int z * escala (expoente \<bar>x\<bar> - 52) \<and>
           2 ^ 52 \<le> z \<and> z \<le> 2 ^ 53 \<and>
           \<bar>arredondar x - x\<bar> \<le> escala (expoente \<bar>x\<bar> - 52) / 2"
proof -
  let ?g = "expoente \<bar>x\<bar> - 52"
  let ?q = "\<bar>x\<bar> / escala ?g"
  let ?z = "inteiro_proximo ?q"
  from assms have a: "0 < \<bar>x\<bar>" by simp
  note s = escala_pos [of ?g]
  from expoente_correto [OF a]
  have lo: "escala (expoente \<bar>x\<bar>) \<le> \<bar>x\<bar>" and hi: "\<bar>x\<bar> < escala (expoente \<bar>x\<bar> + 1)"
    by simp_all
  have e: "escala (expoente \<bar>x\<bar>) = 2 ^ 52 * escala ?g"
    using escala_soma [of ?g 52] by simp
  have e1: "escala (expoente \<bar>x\<bar> + 1) = 2 ^ 53 * escala ?g"
    using escala_soma [of ?g 53] by (simp add: add.commute)
  from lo s have q1: "2 ^ 52 \<le> ?q" by (simp add: e pos_le_divide_eq)
  from hi s have q2: "?q < 2 ^ 53" by (simp add: e1 pos_divide_less_eq)
  from q1 have f1: "2 ^ 52 \<le> \<lfloor>?q\<rfloor>" by (simp add: le_floor_iff)
  from q2 have f2: "\<lfloor>?q\<rfloor> < 2 ^ 53" by (simp add: floor_less_iff)
  from inteiro_proximo_limites [of ?q]
  have f3: "\<lfloor>?q\<rfloor> \<le> ?z" and f4: "?z \<le> \<lfloor>?q\<rfloor> + 1" by blast+
  from f1 f3 have z1: "2 ^ 52 \<le> ?z" by (rule order_trans)
  from f2 f4 have z2: "?z \<le> 2 ^ 53" by linarith
  note z = z1 z2
  have r: "arredondar x = sgn x * of_int ?z * escala ?g"
    using assms by (simp add: arredondar_def Let_def)
  from s have "x = sgn x * ?q * escala ?g" by (simp add: sgn_real_def)
  then have "arredondar x - x = sgn x * escala ?g * (of_int ?z - ?q)"
    by (simp only: r) (simp add: algebra_simps)
  then have "\<bar>arredondar x - x\<bar> = escala ?g * \<bar>of_int ?z - ?q\<bar>"
    using assms s by (simp add: abs_mult)
  also have "\<dots> \<le> escala ?g * (1 / 2)"
    using inteiro_proximo_perto [of ?q] s by (simp only: mult_le_cancel_left_pos)
  finally have "\<bar>arredondar x - x\<bar> \<le> escala ?g / 2" by simp
  with r z show ?thesis by blast
qed

lemma truncar_nao_negativo: "0 \<le> x \<Longrightarrow> truncar x = \<lfloor>x\<rfloor> \<and> 0 \<le> truncar x"
  by (simp add: truncar_def)

lemma lista_restrita_take:
  assumes "0 \<le> alpha"
  shows "lista_restrita alpha custos =
         take (nat \<lfloor>produto (length custos) alpha\<rfloor> + 1) (sort_key snd custos)"
proof -
  from assms have nn: "0 \<le> produto (length custos) alpha" by (rule produto_nonneg)
  then have "truncar (produto (length custos) alpha) = \<lfloor>produto (length custos) alpha\<rfloor>"
    and "0 \<le> \<lfloor>produto (length custos) alpha\<rfloor>"
    by (simp_all add: truncar_def)
  then show ?thesis
    by (simp add: lista_restrita_def fatia_ate_def Let_def nat_add_distrib)
qed

lemma lista_restrita_nao_vazia:
  assumes "0 \<le> alpha" and "custos \<noteq> []"
  shows "lista_restrita alpha custos \<noteq> []"
proof -
  from assms(2) have "sort_key snd custos \<noteq> []"
    by (metis length_0_conv length_sort)
  then show ?thesis by (simp add: lista_restrita_take [OF assms(1)])
qed

lemma set_lista_restrita: "set (lista_restrita alpha custos) \<subseteq> set custos"
proof -
  have "set (fatia_ate xs l) \<subseteq> set xs" for xs :: "(nat \<times> 'a) list" and l
    by (auto simp: fatia_ate_def dest: in_set_takeD)
  from this [of "sort_key snd custos"] show ?thesis
    by (simp add: lista_restrita_def Let_def)
qed

lemma remover_Inr: "remover x xs = Inr ys \<Longrightarrow> mset xs = add_mset x (mset ys)"
  by (auto simp: remover_def split: if_splits)

lemma construir_laco_Inr:
  "construir_laco rnd d alpha g atual sol nv = Inr (r, g') \<Longrightarrow> mset r = mset sol + mset nv"
proof (induction rnd d alpha g atual sol nv rule: construir_laco.induct)
  case (1 rnd d alpha g atual sol nv)
  show ?case
  proof (cases "nv = []")
    case True
    with "1.prems" show ?thesis by (subst (asm) construir_laco.simps) simp
  next
    case False
    with "1.prems" obtain custos escolhido g1 restantes
      where c: "lista_custos d atual nv = Inr custos"
        and e: "choice rnd g (lista_restrita alpha custos) = Inr (escolhido, g1)"
        and r: "remover (fst escolhido) nv = Inr restantes"
        and l: "construir_laco rnd d alpha g1 (fst escolhido) (sol @ [fst escolhido]) restantes
                  = Inr (r, g')"
      by (subst (asm) construir_laco.simps) (auto split: sum.splits prod.splits)
    from "1.IH" [OF False c e refl r l] remover_Inr [OF r] show ?thesis by simp
  qed
qed

lemma construir_laco_total:
  assumes "gerador_ok rnd" and "0 \<le> alpha" and "quadrada d"
    and "atual < length d" and "\<forall>c \<in> set nv. c < length d"
  shows "\<exists>r g'. construir_laco rnd d alpha g atual sol nv = Inr (r, g')"
  using assms
proof (induction rnd d alpha g atual sol nv rule: construir_laco.induct)
  case (1 rnd d alpha g atual sol nv)
  note ok = "1.prems"(1) and al = "1.prems"(2) and sq = "1.prems"(3)
    and at = "1.prems"(4) and nv = "1.prems"(5)
  show ?case
  proof (cases "nv = []")
    case True
    then show ?thesis by (subst construir_laco.simps) simp
  next
    case False
    from at have "d ! atual \<in> set d" by simp
    with sq have row: "length (d ! atual) = length d"
      by (auto simp: quadrada_def)
    with at nv lista_custos_total [of atual d nv] obtain custos
      where c: "lista_custos d atual nv = Inr custos" by auto
    from lista_custos_Inr [OF c] False have fst: "map fst custos = nv" and ne: "custos \<noteq> []"
      by auto
    from choice_total [OF ok lista_restrita_nao_vazia [OF al ne]]
    obtain escolhido g1
      where e: "choice rnd g (lista_restrita alpha custos) = Inr (escolhido, g1)"
      by blast
    from choice_Inr [OF e] have "escolhido \<in> set (lista_restrita alpha custos)" by auto
    with set_lista_restrita have "escolhido \<in> set custos" by blast
    then have "fst escolhido \<in> fst ` set custos" by (rule imageI)
    with fst have mem: "fst escolhido \<in> set nv" by (simp flip: set_map)
    then have r: "remover (fst escolhido) nv = Inr (remove1 (fst escolhido) nv)"
      by (simp add: remover_def)
    from mem nv have a: "fst escolhido < length d" by blast
    from nv have b: "\<forall>c \<in> set (remove1 (fst escolhido) nv). c < length d"
      by (meson in_mono set_remove1_subset)
    from "1.IH" [OF False c e refl r ok al sq a b] obtain r' g'
      where "construir_laco rnd d alpha g1 (fst escolhido) (sol @ [fst escolhido])
               (remove1 (fst escolhido) nv) = Inr (r', g')" by blast
    with False c e r show ?thesis by (subst construir_laco.simps) simp
  qed
qed


lemma construir_solucao_Inr:
  assumes "construir_solucao rnd g d alpha = Inr (sol, g')"
  shows "mset sol = mset [0..<length d]"
proof -
  from assms obtain atual g1 restantes
    where r: "remover atual [0..<length d] = Inr restantes"
      and l: "construir_laco rnd d alpha g1 atual [atual] restantes = Inr (sol, g')"
    by (auto simp: construir_solucao_def Let_def split: sum.splits prod.splits)
  from construir_laco_Inr [OF l] remover_Inr [OF r] show ?thesis by simp
qed

lemma construir_solucao_total:
  assumes "gerador_ok rnd" and "0 \<le> alpha" and "quadrada d" and "d \<noteq> []"
  shows "\<exists>sol g'. construir_solucao rnd g d alpha = Inr (sol, g')"
proof -
  from assms(4) have "[0..<length d] \<noteq> []" by simp
  from choice_total [OF assms(1) this] obtain atual g1
    where e: "choice rnd g [0..<length d] = Inr (atual, g1)" by blast
  from choice_Inr [OF e] have a: "atual < length d" by auto
  then have r: "remover atual [0..<length d] = Inr (remove1 atual [0..<length d])"
    by (simp add: remover_def)
  have "\<forall>c \<in> set (remove1 atual [0..<length d]). c < length d"
  proof
    fix c assume "c \<in> set (remove1 atual [0..<length d])"
    then have "c \<in> set [0..<length d]" using set_remove1_subset by fast
    then show "c < length d" by simp
  qed
  from construir_laco_total [OF assms(1-3) a this] obtain sol g'
    where "construir_laco rnd d alpha g1 atual [atual] (remove1 atual [0..<length d])
             = Inr (sol, g')" by blast
  then have "construir_solucao rnd g d alpha = Inr (sol, g')"
    by (simp add: construir_solucao_def Let_def e r)
  then show ?thesis by blast
qed

subsection \<open>Claims about the construction\<close>

text \<open>
  C3. Whenever \<^verbatim>\<open>construir_solucao\<close> returns a tour on a matrix of \<open>n\<close> rows, the tour is
  a permutation of \<open>0..<n\<close>: it has length \<open>n\<close>, no city twice and every city. It does
  return one for a non-empty square matrix, \<open>alpha \<ge> 0\<close> and a generator that keeps its
  contract.
\<close>

theorem construir_solucao_permutacao:
  "(\<forall>sol g'. construir_solucao rnd g distancias alpha = Inr (sol, g') \<longrightarrow>
      mset sol = mset [0..<length distancias] \<and> length sol = length distancias \<and>
      distinct sol \<and> set sol = {0..<length distancias}) \<and>
   (gerador_ok rnd \<and> 0 \<le> alpha \<and> quadrada distancias \<and> distancias \<noteq> [] \<longrightarrow>
      (\<exists>sol g'. construir_solucao rnd g distancias alpha = Inr (sol, g')))"
proof (intro conjI allI impI)
  fix sol g'
  assume "construir_solucao rnd g distancias alpha = Inr (sol, g')"
  then have m: "mset sol = mset [0..<length distancias]" by (rule construir_solucao_Inr)
  then show "mset sol = mset [0..<length distancias]" .
  from mset_eq_length [OF m] show "length sol = length distancias" by simp
  from mset_eq_imp_distinct_iff [OF m] show "distinct sol" by simp
  from mset_eq_setD [OF m] show "set sol = {0..<length distancias}" by simp
next
  assume "gerador_ok rnd \<and> 0 \<le> alpha \<and> quadrada distancias \<and> distancias \<noteq> []"
  then have "gerador_ok rnd" "0 \<le> alpha" "quadrada distancias" "distancias \<noteq> []"
    by simp_all
  then show "\<exists>sol g'. construir_solucao rnd g distancias alpha = Inr (sol, g')"
    by (rule construir_solucao_total)
qed

lemma gerador_ok_contador: "gerador_ok contador"
proof -
  have "g mod n \<noteq> (g mod n + 1) mod n" if n: "2 \<le> n" for g n :: nat
  proof -
    define k where "k = g mod n"
    from n have k: "k < n" by (simp add: k_def)
    show ?thesis
    proof (cases "k + 1 < n")
      case True
      then show ?thesis by (simp add: k_def [symmetric])
    next
      case False
      with k have e: "k + 1 = n" by simp
      then have "(k + 1) mod n = 0" by simp
      moreover from e n have "k \<noteq> 0" by simp
      ultimately show ?thesis by (simp add: k_def [symmetric])
    qed
  qed
  then show ?thesis by (simp add: gerador_ok_def contador_def)
qed

lemma quadrada_retangulo: "quadrada retangulo"
  by (simp add: quadrada_def retangulo_def)

theorem construir_solucao_permutacao_witness:
  "gerador_ok contador \<and> quadrada retangulo \<and> retangulo \<noteq> [] \<and>
   construir_solucao contador 5 retangulo (3/10) = Inr ([1, 0, 3, 2], 9) \<and>
   mset [1, 0, 3, 2] = mset [0..<length retangulo] \<and> distinct [1, 0, 3, 2 :: nat]"
proof -
  have r: "construir_solucao contador 5 retangulo (3/10) = Inr ([1, 0, 3, 2], 9)"
    by code_simp
  have ne: "retangulo \<noteq> []" by (simp add: retangulo_def)
  from construir_solucao_permutacao [of contador 5 retangulo "3/10"] r
  have "mset [1, 0, 3, 2] = mset [0..<length retangulo] \<and> distinct [1, 0, 3, 2 :: nat]"
    by blast
  with r ne gerador_ok_contador quadrada_retangulo show ?thesis by blast
qed


lemma lista_restrita_zero:
  assumes "custos \<noteq> []"
  shows "\<exists>c x. lista_restrita 0 custos = [(c, x)] \<and> (c, x) \<in> set custos \<and>
           (\<forall>p \<in> set custos. x \<le> snd p)"
proof -
  from assms have "sort_key snd custos \<noteq> []"
    by (metis length_0_conv length_sort)
  then obtain s ss where ss: "sort_key snd custos = s # ss"
    by (cases "sort_key snd custos") auto
  have "sorted (map snd (sort_key snd custos))" by (rule sorted_sort_key)
  with ss have le: "\<forall>p \<in> set ss. snd s \<le> snd p" by simp
  have "set custos = set (sort_key snd custos)" by simp
  with ss have set: "set custos = insert s (set ss)" by simp
  have "lista_restrita 0 custos = [s]"
    using ss by (simp add: lista_restrita_take produto_zero)
  with set le show ?thesis by (cases s) auto
qed

lemma lista_restrita_um:
  assumes "length custos < 2 ^ 53"
  shows "lista_restrita 1 custos = sort_key snd custos"
  by (simp add: lista_restrita_take produto_um [OF assms])

lemma lista_restrita_distinta:
  assumes "distinct (map fst custos)"
  shows "distinct (map fst (lista_restrita alpha custos))"
proof -
  have "mset (map fst (sort_key snd custos)) = mset (map fst custos)"
    by simp
  from mset_eq_imp_distinct_iff [OF this] assms
  have "distinct (map fst (sort_key snd custos))" by simp
  then have "distinct (map fst (take m (sort_key snd custos)))" for m
    by (simp add: take_map [symmetric] distinct_take)
  then show ?thesis
    by (simp add: lista_restrita_def Let_def fatia_ate_def)
qed

text \<open>
  Six cities on a line, city \<open>i\<close> at the point \<open>i\<close>.
\<close>

definition linha6 :: "int list list" where
  "linha6 =
     [[0, 1, 2, 3, 4, 5], [1, 0, 1, 2, 3, 4], [2, 1, 0, 1, 2, 3],
      [3, 2, 1, 0, 1, 2], [4, 3, 2, 1, 0, 1], [5, 4, 3, 2, 1, 0]]"

text \<open>
  The size of the restricted list is not \<open>\<lfloor>k * alpha\<rfloor> + 1\<close> in exact arithmetic. With
  the five cities 1 to 5 unvisited from city 0 and \<open>alpha\<close> the double that \<^verbatim>\<open>0.6\<close>
  denotes, \<open>5404319552844595 / 2\<^sup>5\<^sup>3\<close>, the exact product is just below 3 and
  \<open>\<lfloor>k * alpha\<rfloor> + 1 = 3\<close>, but the double product is \<open>3.0\<close> and the list has 4 entries:
  the generator can draw the fourth, city 4, which is not among the first three. In the
  other direction, \<^verbatim>\<open>50 * 0.58\<close> is the double just below 29, giving 29 entries where
  \<open>\<lfloor>50 * 58 / 100\<rfloor> + 1 = 30\<close>.
\<close>

theorem lista_restrita_contraexemplo:
  "lista_custos linha6 0 [1, 2, 3, 4, 5] = Inr [(1, 1), (2, 2), (3, 3), (4, 4), (5, 5)] \<and>
   arredondar (5404319552844595 / 9007199254740992) = 5404319552844595 / 9007199254740992 \<and>
   arredondar (6 / 10) = 5404319552844595 / 9007199254740992 \<and>
   nat \<lfloor>real (length [1, 2, 3, 4, 5 :: nat]) * (5404319552844595 / 9007199254740992)\<rfloor> + 1 = 3 \<and>
   produto 5 (5404319552844595 / 9007199254740992) = 3 \<and>
   lista_restrita (5404319552844595 / 9007199254740992)
       [(1, 1 :: int), (2, 2), (3, 3), (4, 4), (5, 5)]
     = [(1, 1), (2, 2), (3, 3), (4, 4)] \<and>
   choice contador 3
       (lista_restrita (5404319552844595 / 9007199254740992)
          [(1, 1 :: int), (2, 2), (3, 3), (4, 4), (5, 5)])
     = Inr ((4, 4), 4) \<and>
   (4, 4) \<notin> set (take 3 (sort_key snd [(1 :: nat, 1 :: int), (2, 2), (3, 3), (4, 4), (5, 5)])) \<and>
   truncar (produto 50 (58 / 100)) + 1 = 29 \<and>
   \<lfloor>50 * (58 / 100 :: real)\<rfloor> + 1 = 30"
proof -
  have a: "lista_custos linha6 0 [1, 2, 3, 4, 5]
      = Inr [(1, 1), (2, 2), (3, 3), (4, 4), (5, 5)]"
    by code_simp
  have b: "arredondar (5404319552844595 / 9007199254740992)
      = 5404319552844595 / 9007199254740992"
    by code_simp
  have c: "arredondar (6 / 10) = 5404319552844595 / 9007199254740992"
    by code_simp
  have d: "nat \<lfloor>real (length [1, 2, 3, 4, 5 :: nat])
      * (5404319552844595 / 9007199254740992)\<rfloor> + 1 = 3"
    by code_simp
  have e: "produto 5 (5404319552844595 / 9007199254740992) = 3"
    by code_simp
  have f: "lista_restrita (5404319552844595 / 9007199254740992)
       [(1, 1 :: int), (2, 2), (3, 3), (4, 4), (5, 5)]
     = [(1, 1), (2, 2), (3, 3), (4, 4)]"
    by code_simp
  have g: "choice contador 3
       (lista_restrita (5404319552844595 / 9007199254740992)
          [(1, 1 :: int), (2, 2), (3, 3), (4, 4), (5, 5)])
     = Inr ((4, 4), 4)"
    by code_simp
  have h: "(4, 4) \<notin> set (take 3 (sort_key snd
      [(1 :: nat, 1 :: int), (2, 2), (3, 3), (4, 4), (5, 5)]))"
    by code_simp
  have i: "truncar (produto 50 (58 / 100)) + 1 = 29"
    by code_simp
  have j: "\<lfloor>50 * (58 / 100 :: real)\<rfloor> + 1 = 30"
    by code_simp
  from a b c d e f g h i j show ?thesis by (intro conjI)
qed

text \<open>
  C4. At a step of the construction with unvisited cities \<open>nao_visitados\<close> (not empty)
  whose distances from the current city are \<open>custos\<close>: the candidates are the unvisited
  cities with their distances, sorted ascending by distance; for \<open>alpha \<ge> 0\<close> the
  restricted list is the first \<open>\<lfloor>p\<rfloor> + 1\<close> of them, where \<open>p\<close> is the double-precision
  product of the number \<open>k\<close> of unvisited cities and \<open>alpha\<close> (the product rounded to the
  nearest double, which can fall on the other side of an integer than the exact product);
  the step chooses with \<^verbatim>\<open>random.choice\<close> from that list: it returns an entry exactly
  when it is the entry at the position the generator draws below the length of the list,
  and the entries are different cities, so that a uniform draw of the position is a uniform
  draw of the city; \<open>alpha = 0\<close> gives exactly one entry, a nearest unvisited city, and
  \<open>alpha = 1\<close> gives all the unvisited cities (for fewer than \<open>2\<^sup>5\<^sup>3\<close> of them, which a
  double counts exactly).
\<close>

theorem construir_passo_lista_restrita:
  assumes "lista_custos distancias cidade_atual nao_visitados = Inr custos"
    and "nao_visitados \<noteq> []"
  shows
    "map fst custos = nao_visitados \<and>
     (\<forall>p \<in> set custos. dist distancias cidade_atual (fst p) = Inr (snd p)) \<and>
     sorted (map snd (sort_key snd custos)) \<and>
     mset (sort_key snd custos) = mset custos \<and>
     (0 \<le> alpha \<longrightarrow>
        lista_restrita alpha custos =
          take (nat \<lfloor>produto (length nao_visitados) alpha\<rfloor> + 1)
            (sort_key snd custos)) \<and>
     (distinct nao_visitados \<longrightarrow> distinct (map fst (lista_restrita alpha custos))) \<and>
     construir_laco rnd distancias alpha g cidade_atual solucao nao_visitados =
       (case choice rnd g (lista_restrita alpha custos) of
          Inl e \<Rightarrow> Inl e
        | Inr (escolhido, g') \<Rightarrow>
            (case remover (fst escolhido) nao_visitados of
               Inl e \<Rightarrow> Inl e
             | Inr restantes \<Rightarrow>
                 construir_laco rnd distancias alpha g' (fst escolhido)
                   (solucao @ [fst escolhido]) restantes)) \<and>
     (\<forall>escolhido g'. choice rnd g (lista_restrita alpha custos) = Inr (escolhido, g') \<longleftrightarrow>
        (\<exists>r < length (lista_restrita alpha custos).
           randbelow rnd g (length (lista_restrita alpha custos)) = (r, g') \<and>
           escolhido = lista_restrita alpha custos ! r)) \<and>
     (alpha = 0 \<longrightarrow>
        (\<exists>c x. lista_restrita alpha custos = [(c, x)] \<and> c \<in> set nao_visitados \<and>
           dist distancias cidade_atual c = Inr x \<and> (\<forall>p \<in> set custos. x \<le> snd p))) \<and>
     (alpha = 1 \<and> length nao_visitados < 2 ^ 53 \<longrightarrow>
        lista_restrita alpha custos = sort_key snd custos \<and>
        mset (map fst (lista_restrita alpha custos)) = mset nao_visitados)"
proof -
  from lista_custos_Inr [OF assms(1)]
  have m: "map fst custos = nao_visitados"
    and d: "\<forall>p \<in> set custos. dist distancias cidade_atual (fst p) = Inr (snd p)"
    by simp_all
  from m have len: "length custos = length nao_visitados" by (metis length_map)
  from m assms(2) have ne: "custos \<noteq> []" by auto
  have s: "sorted (map snd (sort_key snd custos))" by (rule sorted_sort_key)
  have p: "mset (sort_key snd custos) = mset custos" by simp
  have t: "0 \<le> alpha \<longrightarrow> lista_restrita alpha custos =
      take (nat \<lfloor>produto (length nao_visitados) alpha\<rfloor> + 1) (sort_key snd custos)"
    using lista_restrita_take [of alpha custos] len by simp
  have di: "distinct nao_visitados \<longrightarrow> distinct (map fst (lista_restrita alpha custos))"
    using lista_restrita_distinta [of custos alpha] m by simp
  have u: "construir_laco rnd distancias alpha g cidade_atual solucao nao_visitados =
       (case choice rnd g (lista_restrita alpha custos) of
          Inl e \<Rightarrow> Inl e
        | Inr (escolhido, g') \<Rightarrow>
            (case remover (fst escolhido) nao_visitados of
               Inl e \<Rightarrow> Inl e
             | Inr restantes \<Rightarrow>
                 construir_laco rnd distancias alpha g' (fst escolhido)
                   (solucao @ [fst escolhido]) restantes))"
    using assms by (subst construir_laco.simps) simp
  have c: "\<forall>escolhido g'. choice rnd g (lista_restrita alpha custos) = Inr (escolhido, g') \<longleftrightarrow>
        (\<exists>r < length (lista_restrita alpha custos).
           randbelow rnd g (length (lista_restrita alpha custos)) = (r, g') \<and>
           escolhido = lista_restrita alpha custos ! r)"
  proof (intro allI iffI)
    fix escolhido g'
    assume "choice rnd g (lista_restrita alpha custos) = Inr (escolhido, g')"
    then show "\<exists>r < length (lista_restrita alpha custos).
           randbelow rnd g (length (lista_restrita alpha custos)) = (r, g') \<and>
           escolhido = lista_restrita alpha custos ! r"
      by (rule choice_Inr)
  next
    fix escolhido g'
    assume "\<exists>r < length (lista_restrita alpha custos).
           randbelow rnd g (length (lista_restrita alpha custos)) = (r, g') \<and>
           escolhido = lista_restrita alpha custos ! r"
    then obtain r where "r < length (lista_restrita alpha custos)"
      and "randbelow rnd g (length (lista_restrita alpha custos)) = (r, g')"
      and "escolhido = lista_restrita alpha custos ! r" by blast
    then show "choice rnd g (lista_restrita alpha custos) = Inr (escolhido, g')"
      by (simp add: choice_sorteio)
  qed
  have z: "alpha = 0 \<longrightarrow>
        (\<exists>c x. lista_restrita alpha custos = [(c, x)] \<and> c \<in> set nao_visitados \<and>
           dist distancias cidade_atual c = Inr x \<and> (\<forall>p \<in> set custos. x \<le> snd p))"
  proof
    assume a: "alpha = 0"
    from lista_restrita_zero [OF ne] obtain c x
      where r: "lista_restrita 0 custos = [(c, x)]" and i: "(c, x) \<in> set custos"
        and l: "\<forall>p \<in> set custos. x \<le> snd p" by blast
    from i have "fst (c, x) \<in> fst ` set custos" by (rule imageI)
    with m have "c \<in> set nao_visitados" by (simp flip: set_map)
    moreover from d i have "dist distancias cidade_atual c = Inr x" by auto
    ultimately show "\<exists>c x. lista_restrita alpha custos = [(c, x)] \<and> c \<in> set nao_visitados \<and>
           dist distancias cidade_atual c = Inr x \<and> (\<forall>p \<in> set custos. x \<le> snd p)"
      using a r l by blast
  qed
  have o: "alpha = 1 \<and> length nao_visitados < 2 ^ 53 \<longrightarrow>
        lista_restrita alpha custos = sort_key snd custos \<and>
        mset (map fst (lista_restrita alpha custos)) = mset nao_visitados"
  proof
    assume a: "alpha = 1 \<and> length nao_visitados < 2 ^ 53"
    with len have "length custos < 2 ^ 53" by simp
    from lista_restrita_um [OF this] a m
    show "lista_restrita alpha custos = sort_key snd custos \<and>
        mset (map fst (lista_restrita alpha custos)) = mset nao_visitados"
      by auto
  qed
  from m d s p t di u c z o show ?thesis by (intro conjI)
qed


theorem construir_passo_lista_restrita_witness:
  "lista_custos retangulo 1 [0, 2, 3] = Inr [(0, 3), (2, 4), (3, 5)] \<and>
   [0, 2, 3 :: nat] \<noteq> [] \<and>
   sort_key snd [(0 :: nat, 3 :: int), (2, 4), (3, 5)] = [(0, 3), (2, 4), (3, 5)] \<and>
   lista_restrita (1 / 2) [(0 :: nat, 3 :: int), (2, 4), (3, 5)] = [(0, 3), (2, 4)] \<and>
   lista_restrita 0 [(0 :: nat, 3 :: int), (2, 4), (3, 5)] = [(0, 3)] \<and>
   lista_restrita 1 [(0 :: nat, 3 :: int), (2, 4), (3, 5)] = [(0, 3), (2, 4), (3, 5)] \<and>
   choice contador 5 (lista_restrita (1 / 2) [(0 :: nat, 3 :: int), (2, 4), (3, 5)])
     = Inr ((2, 4), 6)"
proof -
  have h: "lista_custos retangulo 1 [0, 2, 3] = Inr [(0, 3), (2, 4), (3, 5)]"
    by code_simp
  have n: "[0, 2, 3 :: nat] \<noteq> []" by simp
  have s: "sort_key snd [(0 :: nat, 3 :: int), (2, 4), (3, 5)] = [(0, 3), (2, 4), (3, 5)]"
    by simp
  note t = construir_passo_lista_restrita [OF h n, where rnd = contador and g = 5
      and solucao = "[1]"]
  have a: "lista_restrita (1 / 2) [(0 :: nat, 3 :: int), (2, 4), (3, 5)] = [(0, 3), (2, 4)]"
    by code_simp
  have z: "lista_restrita 0 [(0 :: nat, 3 :: int), (2, 4), (3, 5)] = [(0, 3)]"
    by code_simp
  have "(1 :: real) = 1 \<and> length [0, 2, 3 :: nat] < 2 ^ 53" by simp
  with t [where alpha = 1]
  have "lista_restrita 1 [(0 :: nat, 3 :: int), (2, 4), (3, 5)]
      = sort_key snd [(0, 3), (2, 4), (3, 5)]"
    by blast
  then have o: "lista_restrita 1 [(0 :: nat, 3 :: int), (2, 4), (3, 5)]
      = [(0, 3), (2, 4), (3, 5)]"
    by (simp only: s)
  have c: "choice contador 5 (lista_restrita (1 / 2) [(0 :: nat, 3 :: int), (2, 4), (3, 5)])
     = Inr ((2, 4), 6)"
    by code_simp
  from h n s a z o c show ?thesis by (intro conjI)
qed

section \<open>List objects: what the search and the perturbation leave unchanged\<close>

subsection \<open>The first and the last position\<close>

lemma candidata_extremos:
  assumes "1 \<le> i" and "i < j" and "j < length m"
  shows "length (candidata m i j) = length m \<and> candidata m i j ! 0 = m ! 0 \<and>
         candidata m i j ! (length m - 1) = m ! (length m - 1)"
proof -
  from assms have c: "candidata m i j = take i m @ rev (drop i (take j m)) @ drop j m"
    by (simp add: candidata_def atribuir_fatia_def fatia_invertida_def)
  from assms have len: "length (candidata m i j) = length m"
    by (simp add: c)
  from assms have z: "candidata m i j ! 0 = m ! 0"
    by (simp add: c nth_append)
  from assms have "drop j m \<noteq> []" by simp
  then have "last (candidata m i j) = last (drop j m)"
    by (simp add: c)
  also from assms have "\<dots> = last m" by simp
  finally have "last (candidata m i j) = last m" .
  moreover from assms have "m \<noteq> []" "candidata m i j \<noteq> []" using len by auto
  ultimately have "candidata m i j ! (length m - 1) = m ! (length m - 1)"
    using len by (simp add: last_conv_nth)
  with len z show ?thesis by simp
qed

lemma varredura_extremos:
  assumes "varredura d ps (m, c, b) = Inr (m', c', b')"
    and "\<forall>(i, j) \<in> set ps. 1 \<le> i \<and> i < j \<and> j < length m"
  shows "length m' = length m \<and> m' ! 0 = m ! 0 \<and> m' ! (length m - 1) = m ! (length m - 1)"
  using assms
proof (induction ps arbitrary: m c b)
  case Nil
  then show ?case by simp
next
  case (Cons p ps)
  obtain i j where p: "p = (i, j)" by (cases p)
  from Cons.prems p have ij: "1 \<le> i" "i < j" "j < length m" by auto
  from Cons.prems(1) p obtain m1 c1 b1
    where s1: "passo d i j (m, c, b) = Inr (m1, c1, b1)"
      and s2: "varredura d ps (m1, c1, b1) = Inr (m', c', b')"
    by (auto split: sum.splits)
  from passo_Inr [OF s1] candidata_extremos [OF ij]
  have a: "length m1 = length m \<and> m1 ! 0 = m ! 0 \<and> m1 ! (length m - 1) = m ! (length m - 1)"
    by auto
  with Cons.prems(2) have "\<forall>(i, j) \<in> set ps. 1 \<le> i \<and> i < j \<and> j < length m1" by simp
  from Cons.IH [OF s2 this] a show ?case by simp
qed

lemma busca_laco_extremos:
  assumes "busca_laco d sol m c = Inr r" and "length sol = length m"
  shows "length r = length m \<and> r ! 0 = m ! 0 \<and> r ! (length m - 1) = m ! (length m - 1)"
  using assms
proof (induction d sol m c rule: busca_laco.induct)
  case (1 d sol m c)
  from "1.prems"(1) obtain m' c' b'
    where v: "varredura d (pares (length sol)) (m, c, False) = Inr (m', c', b')"
    by (subst (asm) busca_laco.simps) (auto split: sum.splits)
  have "\<forall>(i, j) \<in> set (pares (length sol)). 1 \<le> i \<and> i < j \<and> j < length m"
    using "1.prems"(2) by (auto simp: pares_iff)
  from varredura_extremos [OF v this]
  have e: "length m' = length m \<and> m' ! 0 = m ! 0 \<and> m' ! (length m - 1) = m ! (length m - 1)" .
  show ?case
  proof (cases b')
    case True
    with "1.prems"(1) v have "busca_laco d m' m' c' = Inr r"
      by (subst (asm) busca_laco.simps) simp
    from "1.IH" [OF v refl refl True this refl] e show ?thesis by simp
  next
    case False
    with "1.prems"(1) v have "r = m'"
      by (subst (asm) busca_laco.simps) simp
    with e show ?thesis by simp
  qed
qed

lemma busca_local_extremos:
  assumes "busca_local solucao d = Inr r"
  shows "solucao \<noteq> [] \<and> length r = length solucao \<and> r ! 0 = solucao ! 0 \<and>
         r ! (length solucao - 1) = solucao ! (length solucao - 1)"
proof -
  from assms obtain c where c: "calcular_custo solucao d = Inr c"
    and l: "busca_laco d solucao solucao c = Inr r"
    by (auto simp: busca_local_def split: sum.splits)
  from c have "solucao \<noteq> []"
    by (auto simp: calcular_custo_def ultimo_def split: sum.splits if_splits)
  with busca_laco_extremos [OF l refl] show ?thesis by simp
qed

subsection \<open>Lists in memory\<close>

text \<open>
  Python lists are objects: \<^verbatim>\<open>melhor = solucao\<close> makes two names for one list, and a slice
  assignment changes the list in place. To state that a list is not changed, the lists live
  in a memory: \<open>celulas h a\<close> is the list at the address \<open>a\<close>, and the addresses below
  \<open>proximo h\<close> are in use. A variable holds an address.
\<close>

record memoria =
  celulas :: "nat \<Rightarrow> nat list"
  proximo :: nat

text \<open>\<^verbatim>\<open>xs[:]\<close>: a new list with the same elements, at the next free address.\<close>

definition copiar :: "memoria \<Rightarrow> nat \<Rightarrow> memoria \<times> nat" where
  "copiar h r =
     (h\<lparr>celulas := (celulas h)(proximo h := celulas h r), proximo := proximo h + 1\<rparr>,
      proximo h)"

text \<open>An assignment into the list at \<open>r\<close> leaves it with the elements \<open>xs\<close>.\<close>

definition gravar :: "memoria \<Rightarrow> nat \<Rightarrow> nat list \<Rightarrow> memoria" where
  "gravar h r xs = h\<lparr>celulas := (celulas h)(r := xs)\<rparr>"

subsection \<open>\<^verbatim>\<open>busca_local\<close> on the memory\<close>

text \<open>
  The same code as \<open>passo\<close>, \<open>varredura\<close>, \<open>busca_laco\<close> and \<open>busca_local\<close>, with
  \<^verbatim>\<open>solucao\<close>, \<^verbatim>\<open>melhor\<close> and \<^verbatim>\<open>nova_solucao\<close> as addresses:
  \<^verbatim>\<open>nova_solucao = melhor[:]\<close> allocates, the slice assignment writes into the new list,
  and \<^verbatim>\<open>melhor = nova_solucao\<close> copies the address.
\<close>

definition passo_h ::
  "'a::linordered_idom list list \<Rightarrow> nat \<Rightarrow> nat \<Rightarrow> memoria \<times> nat \<times> 'a \<times> bool
     \<Rightarrow> error + memoria \<times> nat \<times> 'a \<times> bool" where
  "passo_h distancias i j st =
     (case st of (h, melhor, melhor_custo, melhorou) \<Rightarrow>
        if j - i = 1 then Inr st
        else
          (case copiar h melhor of
             (h1, nova_solucao) \<Rightarrow>
               let h2 = gravar h1 nova_solucao
                          (atribuir_fatia (celulas h1 nova_solucao) i j
                             (fatia_invertida (celulas h1 melhor) i j))
               in
               (case calcular_custo (celulas h2 nova_solucao) distancias of
                  Inl e \<Rightarrow> Inl e
                | Inr novo_custo \<Rightarrow>
                    if novo_custo < melhor_custo then Inr (h2, nova_solucao, novo_custo, True)
                    else Inr (h2, melhor, melhor_custo, melhorou))))"

fun varredura_h ::
  "'a::linordered_idom list list \<Rightarrow> (nat \<times> nat) list \<Rightarrow> memoria \<times> nat \<times> 'a \<times> bool
     \<Rightarrow> error + memoria \<times> nat \<times> 'a \<times> bool" where
  "varredura_h distancias [] st = Inr st"
| "varredura_h distancias ((i, j) # ps) st =
     (case passo_h distancias i j st of
        Inl e \<Rightarrow> Inl e
      | Inr st' \<Rightarrow> varredura_h distancias ps st')"

lemma passo_h_celulas:
  assumes "passo_h d i j (h, m, c, b) = Inr (h', m', c', b')"
  shows "(h' = h \<and> m' = m \<and> c' = c \<and> b' = b) \<or>
         (proximo h' = proximo h + 1 \<and>
          celulas h' = (celulas h)(proximo h := candidata (celulas h m) i j) \<and>
          (\<exists>x. calcular_custo (candidata (celulas h m) i j) d = Inr x \<and>
             (if x < c then m' = proximo h \<and> c' = x \<and> b' else m' = m \<and> c' = c \<and> b' = b)))"
  using assms
  by (auto simp: passo_h_def copiar_def gravar_def candidata_def Let_def
      split: if_splits sum.splits)

lemma passo_h_Inr:
  assumes "passo_h d i j (h, m, c, b) = Inr (h', m', c', b')" and "1 \<le> i" and "i \<le> j"
  shows "proximo h \<le> proximo h' \<and> (\<forall>a < proximo h. celulas h' a = celulas h a) \<and>
         mset (celulas h' m') = mset (celulas h m) \<and>
         ((c' = c \<and> b' = b \<and> m' = m) \<or>
          (calcular_custo (celulas h' m') d = Inr c' \<and> c' < c \<and> b' \<and> m' < proximo h'))"
  using passo_h_celulas [OF assms(1)] mset_candidata [OF assms(2,3), of "celulas h m"]
  by (auto split: if_splits)

lemma varredura_h_Inr:
  assumes "varredura_h d ps (h, m, c, b) = Inr (h', m', c', b')"
    and "\<forall>(i, j) \<in> set ps. 1 \<le> i \<and> i < j"
  shows "proximo h \<le> proximo h' \<and> (\<forall>a < proximo h. celulas h' a = celulas h a) \<and>
         mset (celulas h' m') = mset (celulas h m) \<and> c' \<le> c \<and> (b \<longrightarrow> b') \<and>
         ((c' = c \<and> b' = b \<and> m' = m) \<or>
          (calcular_custo (celulas h' m') d = Inr c' \<and> c' < c \<and> b' \<and> m' < proximo h'))"
  using assms
proof (induction ps arbitrary: h m c b)
  case Nil
  then show ?case by simp
next
  case (Cons p ps)
  obtain i j where p: "p = (i, j)" by (cases p)
  from Cons.prems p have ij: "1 \<le> i" "i \<le> j" by auto
  from Cons.prems(1) p obtain h1 m1 c1 b1
    where s1: "passo_h d i j (h, m, c, b) = Inr (h1, m1, c1, b1)"
      and s2: "varredura_h d ps (h1, m1, c1, b1) = Inr (h', m', c', b')"
    by (auto split: sum.splits)
  from passo_h_Inr [OF s1 ij]
  have a1: "proximo h \<le> proximo h1" and a2: "\<forall>a < proximo h. celulas h1 a = celulas h a"
    and a3: "mset (celulas h1 m1) = mset (celulas h m)"
    and a4: "(c1 = c \<and> b1 = b \<and> m1 = m) \<or>
      (calcular_custo (celulas h1 m1) d = Inr c1 \<and> c1 < c \<and> b1 \<and> m1 < proximo h1)"
    by simp_all
  from Cons.IH [OF s2] Cons.prems(2)
  have b1: "proximo h1 \<le> proximo h'" and b2: "\<forall>a < proximo h1. celulas h' a = celulas h1 a"
    and b3: "mset (celulas h' m') = mset (celulas h1 m1)" and b4: "c' \<le> c1" "b1 \<longrightarrow> b'"
    and b5: "(c' = c1 \<and> b' = b1 \<and> m' = m1) \<or>
      (calcular_custo (celulas h' m') d = Inr c' \<and> c' < c1 \<and> b' \<and> m' < proximo h')"
    by simp_all
  from a1 b1 have f1: "proximo h \<le> proximo h'" by simp
  from a1 a2 b2 have f2: "\<forall>a < proximo h. celulas h' a = celulas h a" by auto
  from a3 b3 have f3: "mset (celulas h' m') = mset (celulas h m)" by simp
  from a4 b4 have f4: "c' \<le> c" "b \<longrightarrow> b'" by auto
  have f5: "(c' = c \<and> b' = b \<and> m' = m) \<or>
      (calcular_custo (celulas h' m') d = Inr c' \<and> c' < c \<and> b' \<and> m' < proximo h')"
  proof (cases "c' = c1 \<and> b' = b1 \<and> m' = m1")
    case True
    show ?thesis
    proof (cases "c1 = c \<and> b1 = b \<and> m1 = m")
      case True
      with \<open>c' = c1 \<and> b' = b1 \<and> m' = m1\<close> show ?thesis by simp
    next
      case False
      with a4 have x: "calcular_custo (celulas h1 m1) d = Inr c1" "c1 < c" "b1" "m1 < proximo h1"
        by simp_all
      with b2 have "celulas h' m1 = celulas h1 m1" by simp
      with x True b1 show ?thesis by simp
    qed
  next
    case False
    with b5 a4 show ?thesis by auto
  qed
  from f1 f2 f3 f4 f5 show ?case by (intro conjI)
qed

function busca_laco_h ::
  "'a::linordered_idom list list \<Rightarrow> memoria \<Rightarrow> nat \<Rightarrow> nat \<Rightarrow> 'a \<Rightarrow> error + memoria \<times> nat" where
  "busca_laco_h distancias h solucao melhor melhor_custo =
     (case varredura_h distancias (pares (length (celulas h solucao)))
             (h, melhor, melhor_custo, False) of
        Inl e \<Rightarrow> Inl e
      | Inr (h', melhor', custo', melhorou) \<Rightarrow>
          if melhorou then busca_laco_h distancias h' melhor' melhor' custo'
          else Inr (h', melhor'))"
  by pat_completeness auto
termination
proof (relation "measure (\<lambda>(d, h, sol, m, c).
    card {x. \<exists>p. mset p = mset (celulas h m) \<and> calcular_custo p d = Inr x \<and> x < c})", goal_cases)
  case 1
  show ?case by simp
next
  case (2 d h sol m c st h' rest m' rest' c' b')
  then have "varredura_h d (pares (length (celulas h sol))) (h, m, c, False) = Inr (h', m', c', True)"
    by simp
  from varredura_h_Inr [OF this pares_ok]
  have ms: "mset (celulas h' m') = mset (celulas h m)"
    and cc: "calcular_custo (celulas h' m') d = Inr c'" and lt: "c' < c"
    by auto
  let ?S = "{x. \<exists>p. mset p = mset (celulas h m) \<and> calcular_custo p d = Inr x \<and> x < c}"
  let ?S' = "{x. \<exists>p. mset p = mset (celulas h' m') \<and> calcular_custo p d = Inr x \<and> x < c'}"
  have "?S' \<subseteq> ?S" using ms lt by auto
  moreover have "c' \<in> ?S" using ms cc lt by auto
  moreover have "c' \<notin> ?S'" by simp
  ultimately have "?S' \<subset> ?S" by blast
  then have "card ?S' < card ?S"
    by (rule psubset_card_mono [OF custos_menores_finito])
  then show ?case by simp
qed

declare busca_laco_h.simps [simp del]

definition busca_local_h ::
  "memoria \<Rightarrow> nat \<Rightarrow> 'a::linordered_idom list list \<Rightarrow> error + memoria \<times> nat" where
  "busca_local_h h solucao distancias =
     (case calcular_custo (celulas h solucao) distancias of
        Inl e \<Rightarrow> Inl e
      | Inr melhor_custo \<Rightarrow> busca_laco_h distancias h solucao solucao melhor_custo)"

text \<open>
  For an address in use, the search on the memory computes what the search on values
  computes, and changes no list that was there.
\<close>

lemma passo_h_simula:
  assumes "m < proximo h"
  shows "case passo_h d i j (h, m, c, b) of
           Inl e \<Rightarrow> passo d i j (celulas h m, c, b) = Inl e
         | Inr (h', m', c', b') \<Rightarrow>
             passo d i j (celulas h m, c, b) = Inr (celulas h' m', c', b') \<and> m' < proximo h'"
  using assms
  by (auto simp: passo_h_def passo_def copiar_def gravar_def candidata_def Let_def
      split: sum.splits)

lemma varredura_h_simula:
  assumes "m < proximo h"
  shows "case varredura_h d ps (h, m, c, b) of
           Inl e \<Rightarrow> varredura d ps (celulas h m, c, b) = Inl e
         | Inr (h', m', c', b') \<Rightarrow>
             varredura d ps (celulas h m, c, b) = Inr (celulas h' m', c', b') \<and> m' < proximo h'"
  using assms
proof (induction ps arbitrary: h m c b)
  case Nil
  then show ?case by simp
next
  case (Cons p ps)
  obtain i j where p: "p = (i, j)" by (cases p)
  show ?case
  proof (cases "passo_h d i j (h, m, c, b)")
    case (Inl e)
    with passo_h_simula [OF Cons.prems, of d i j c b] p show ?thesis by simp
  next
    case (Inr st)
    obtain h1 m1 c1 b1 where st: "st = (h1, m1, c1, b1)" by (cases st)
    from passo_h_simula [OF Cons.prems, of d i j c b] Inr st
    have s: "passo d i j (celulas h m, c, b) = Inr (celulas h1 m1, c1, b1)"
      and v: "m1 < proximo h1" by simp_all
    from Cons.IH [OF v, of c1 b1] Inr st s p show ?thesis
      by (auto split: sum.splits)
  qed
qed

lemma busca_laco_h_simula:
  assumes "m < proximo h"
  shows "case busca_laco_h d h sol m c of
           Inl e \<Rightarrow> busca_laco d (celulas h sol) (celulas h m) c = Inl e
         | Inr (h', r) \<Rightarrow>
             busca_laco d (celulas h sol) (celulas h m) c = Inr (celulas h' r) \<and>
             r < proximo h' \<and> proximo h \<le> proximo h' \<and>
             (\<forall>a < proximo h. celulas h' a = celulas h a)"
  using assms
proof (induction d h sol m c rule: busca_laco_h.induct)
  case (1 d h sol m c)
  let ?ps = "pares (length (celulas h sol))"
  show ?case
  proof (cases "varredura_h d ?ps (h, m, c, False)")
    case (Inl e)
    with varredura_h_simula [OF "1.prems", of d ?ps c False]
    have "varredura d ?ps (celulas h m, c, False) = Inl e" by simp
    with Inl show ?thesis
      by (subst busca_laco_h.simps, subst busca_laco.simps) simp
  next
    case (Inr st)
    obtain h1 m1 c1 b1 where st: "st = (h1, m1, c1, b1)" by (cases st)
    from varredura_h_simula [OF "1.prems", of d ?ps c False] Inr st
    have s: "varredura d ?ps (celulas h m, c, False) = Inr (celulas h1 m1, c1, b1)"
      and v: "m1 < proximo h1" by simp_all
    from varredura_h_Inr [OF Inr [unfolded st] pares_ok]
    have f: "proximo h \<le> proximo h1" "\<forall>a < proximo h. celulas h1 a = celulas h a"
      by simp_all
    show ?thesis
    proof (cases b1)
      case False
      with Inr st s v f show ?thesis
        by (subst busca_laco_h.simps, subst busca_laco.simps) simp
    next
      case True
      from "1.IH" [OF Inr st [symmetric] refl refl True v]
      have ih: "case busca_laco_h d h1 m1 m1 c1 of
           Inl e \<Rightarrow> busca_laco d (celulas h1 m1) (celulas h1 m1) c1 = Inl e
         | Inr (h', r) \<Rightarrow>
             busca_laco d (celulas h1 m1) (celulas h1 m1) c1 = Inr (celulas h' r) \<and>
             r < proximo h' \<and> proximo h1 \<le> proximo h' \<and>
             (\<forall>a < proximo h1. celulas h' a = celulas h1 a)" .
      have l: "busca_laco_h d h sol m c = busca_laco_h d h1 m1 m1 c1"
        using Inr st True by (subst busca_laco_h.simps) simp
      have r: "busca_laco d (celulas h sol) (celulas h m) c
          = busca_laco d (celulas h1 m1) (celulas h1 m1) c1"
        using s True by (subst busca_laco.simps) simp
      from ih f show ?thesis
        unfolding l r by (auto split: sum.splits)
    qed
  qed
qed

lemma busca_local_h_simula:
  assumes "solucao < proximo h"
  shows "case busca_local_h h solucao d of
           Inl e \<Rightarrow> busca_local (celulas h solucao) d = Inl e
         | Inr (h', r) \<Rightarrow>
             busca_local (celulas h solucao) d = Inr (celulas h' r) \<and>
             r < proximo h' \<and> proximo h \<le> proximo h' \<and>
             (\<forall>a < proximo h. celulas h' a = celulas h a)"
proof (cases "calcular_custo (celulas h solucao) d")
  case (Inl e)
  then show ?thesis by (simp add: busca_local_h_def busca_local_def)
next
  case (Inr c)
  with busca_laco_h_simula [OF assms, of d solucao c] show ?thesis
    by (auto simp: busca_local_h_def busca_local_def split: sum.splits)
qed

lemma candidata_fora:
  assumes "1 \<le> i" and "i \<le> j" and "j \<le> length m" and "k < i \<or> j \<le> k"
  shows "candidata m i j ! k = m ! k"
proof -
  from assms have c: "candidata m i j = take i m @ rev (drop i (take j m)) @ drop j m"
    by (simp add: candidata_def atribuir_fatia_def fatia_invertida_def)
  from assms(4) show ?thesis
  proof
    assume "k < i"
    with assms show ?thesis by (simp add: c nth_append)
  next
    assume jk: "j \<le> k"
    with assms have "\<not> k < i" "\<not> k - i < j - i" "j + (k - i - (j - i)) = k"
      by arith+
    with assms show ?thesis by (simp add: c nth_append min_def)
  qed
qed

text \<open>A memory with one list, at the address 0.\<close>

definition memoria_de :: "nat list \<Rightarrow> memoria" where
  "memoria_de xs = \<lparr>celulas = (\<lambda>_. [])(0 := xs), proximo = 1\<rparr>"

text \<open>
  C10. When \<^verbatim>\<open>busca_local\<close> returns, the list object it was given is unchanged, as is every
  list that existed before the call; the list it returns has the length of the input and the
  same city at the first and at the last position. A candidate differs from \<^verbatim>\<open>melhor\<close> only
  at positions \<open>i \<le> k < j\<close> of a visited pair, and these lie between 1 and \<open>n - 2\<close>.
\<close>

theorem busca_local_preserva_extremos:
  assumes "solucao < proximo h"
    and "busca_local_h h solucao distancias = Inr (h', r)"
  shows "celulas h' solucao = celulas h solucao \<and>
         (\<forall>a < proximo h. celulas h' a = celulas h a) \<and>
         busca_local (celulas h solucao) distancias = Inr (celulas h' r) \<and>
         celulas h solucao \<noteq> [] \<and>
         length (celulas h' r) = length (celulas h solucao) \<and>
         celulas h' r ! 0 = celulas h solucao ! 0 \<and>
         celulas h' r ! (length (celulas h solucao) - 1)
           = celulas h solucao ! (length (celulas h solucao) - 1) \<and>
         (\<forall>(i, j) \<in> set (pares (length (celulas h solucao))).
            1 \<le> i \<and> j \<le> length (celulas h solucao) - 1 \<and>
            (\<forall>melhor k. length melhor = length (celulas h solucao) \<and> (k < i \<or> j \<le> k) \<longrightarrow>
               candidata melhor i j ! k = melhor ! k))"
proof -
  from busca_local_h_simula [OF assms(1), of distancias] assms(2)
  have p: "busca_local (celulas h solucao) distancias = Inr (celulas h' r)"
    and f: "\<forall>a < proximo h. celulas h' a = celulas h a"
    by simp_all
  from f assms(1) have i: "celulas h' solucao = celulas h solucao" by simp
  note e = busca_local_extremos [OF p]
  have c: "\<forall>(i, j) \<in> set (pares (length (celulas h solucao))).
            1 \<le> i \<and> j \<le> length (celulas h solucao) - 1 \<and>
            (\<forall>melhor k. length melhor = length (celulas h solucao) \<and> (k < i \<or> j \<le> k) \<longrightarrow>
               candidata melhor i j ! k = melhor ! k)"
    by (auto simp: pares_iff intro!: candidata_fora)
  from i f p e c show ?thesis by (intro conjI) simp_all
qed

theorem busca_local_preserva_extremos_witness:
  "0 < proximo (memoria_de [0, 2, 1, 3]) \<and>
   (\<exists>h' r. busca_local_h (memoria_de [0, 2, 1, 3]) 0 retangulo = Inr (h', r) \<and>
      celulas h' 0 = [0, 2, 1, 3] \<and> celulas h' r = [0, 1, 2, 3])"
proof -
  have v: "0 < proximo (memoria_de [0, 2, 1, 3])" by (simp add: memoria_de_def)
  have "map_sum id (\<lambda>(h', r). celulas h' r) (busca_local_h (memoria_de [0, 2, 1, 3]) 0 retangulo)
      = Inr [0, 1, 2, 3]"
    by code_simp
  then obtain h' r
    where b: "busca_local_h (memoria_de [0, 2, 1, 3]) 0 retangulo = Inr (h', r)"
      and c: "celulas h' r = [0, 1, 2, 3]"
    by (cases "busca_local_h (memoria_de [0, 2, 1, 3]) 0 (retangulo)") auto
  from busca_local_preserva_extremos [OF v b]
  have "celulas h' 0 = celulas (memoria_de [0, 2, 1, 3]) 0" by simp
  then have "celulas h' 0 = [0, 2, 1, 3]" by (simp add: memoria_de_def)
  with v b c show ?thesis by blast
qed

section \<open>Perturbation: \<^verbatim>\<open>perturbar\<close>\<close>

text \<open>\<^verbatim>\<open>random.sample(range(n), 2)\<close> raises ValueError when \<open>n < 2\<close>.\<close>

definition sample :: "'g aleatorio \<Rightarrow> 'g \<Rightarrow> nat \<Rightarrow> error + (nat \<times> nat) \<times> 'g" where
  "sample rnd g n = (if n < 2 then Inl ValueError else Inr (sample2 rnd g n))"

text \<open>\<^verbatim>\<open>xs[i] = v\<close>\<close>

definition atribuir :: "'b list \<Rightarrow> nat \<Rightarrow> 'b \<Rightarrow> error + 'b list" where
  "atribuir xs i v = (if i < length xs then Inr (xs[i := v]) else Inl IndexError)"

text \<open>
  \<^verbatim>\<open>nova[i], nova[j] = nova[j], nova[i]\<close>: both reads, then the write at \<open>i\<close>, then the
  write at \<open>j\<close>.
\<close>

definition trocar :: "'b list \<Rightarrow> nat \<Rightarrow> nat \<Rightarrow> error + 'b list" where
  "trocar nova i j =
     (case indice nova j of
        Inl e \<Rightarrow> Inl e
      | Inr a \<Rightarrow>
          (case indice nova i of
             Inl e \<Rightarrow> Inl e
           | Inr b \<Rightarrow>
               (case atribuir nova i a of
                  Inl e \<Rightarrow> Inl e
                | Inr nova1 \<Rightarrow> atribuir nova1 j b)))"

text \<open>\<^verbatim>\<open>perturbar\<close> on values, and on the memory, where \<^verbatim>\<open>nova = solucao[:]\<close> allocates.\<close>

definition perturbar :: "'g aleatorio \<Rightarrow> 'g \<Rightarrow> nat list \<Rightarrow> error + nat list \<times> 'g" where
  "perturbar rnd g solucao =
     (let nova = solucao in
      (case sample rnd g (length solucao) of
         Inl e \<Rightarrow> Inl e
       | Inr ((i, j), g') \<Rightarrow>
           (case trocar nova i j of
              Inl e \<Rightarrow> Inl e
            | Inr trocada \<Rightarrow> Inr (trocada, g'))))"

definition perturbar_h ::
  "'g aleatorio \<Rightarrow> 'g \<Rightarrow> memoria \<Rightarrow> nat \<Rightarrow> error + memoria \<times> nat \<times> 'g" where
  "perturbar_h rnd g h solucao =
     (case copiar h solucao of
        (h1, nova) \<Rightarrow>
          (case sample rnd g (length (celulas h1 solucao)) of
             Inl e \<Rightarrow> Inl e
           | Inr ((i, j), g') \<Rightarrow>
               (case trocar (celulas h1 nova) i j of
                  Inl e \<Rightarrow> Inl e
                | Inr trocada \<Rightarrow> Inr (gravar h1 nova trocada, nova, g'))))"

lemma trocar_Inr:
  "trocar xs i j = Inr ys \<longleftrightarrow>
     i < length xs \<and> j < length xs \<and> ys = (xs[i := xs ! j])[j := xs ! i]"
  by (auto simp: trocar_def indice_def atribuir_def)

lemma perturbar_Inr:
  "perturbar rnd g xs = Inr (ys, g') \<longleftrightarrow>
     2 \<le> length xs \<and>
     (\<exists>i j. sample2 rnd g (length xs) = ((i, j), g') \<and> i < length xs \<and> j < length xs \<and>
        ys = (xs[i := xs ! j])[j := xs ! i])"
  by (auto simp: perturbar_def sample_def trocar_def indice_def atribuir_def
      split: sum.splits prod.splits)

lemma perturbar_h_simula:
  assumes "solucao < proximo h"
  shows "perturbar_h rnd g h solucao =
         (case perturbar rnd g (celulas h solucao) of
            Inl e \<Rightarrow> Inl e
          | Inr (trocada, g') \<Rightarrow> Inr (gravar (fst (copiar h solucao)) (proximo h) trocada, proximo h, g'))"
  using assms
  by (auto simp: perturbar_h_def perturbar_def copiar_def split: sum.splits prod.splits)

lemma gerador_ok_sample:
  assumes "gerador_ok rnd" and "2 \<le> n" and "sample2 rnd g n = ((i, j), g')"
  shows "i < n \<and> j < n \<and> i \<noteq> j"
proof -
  from assms(1) have "\<forall>g n. 2 \<le> n \<longrightarrow>
      (case fst (sample2 rnd g n) of (i, j) \<Rightarrow> i < n \<and> j < n \<and> i \<noteq> j)"
    by (simp add: gerador_ok_def)
  from this [rule_format, OF assms(2), of g] assms(3) show ?thesis by simp
qed

lemma perturbar_total:
  assumes "gerador_ok rnd" and "2 \<le> length xs"
  shows "\<exists>ys g'. perturbar rnd g xs = Inr (ys, g')"
proof -
  obtain i j g' where s: "sample2 rnd g (length xs) = ((i, j), g')"
    by (metis prod.exhaust)
  from gerador_ok_sample [OF assms s] s assms(2) show ?thesis
    by (auto simp: perturbar_Inr)
qed


lemma troca_posicoes:
  assumes "i < length xs" and "j < length xs"
  shows "length ((xs[i := xs ! j])[j := xs ! i]) = length xs \<and>
         (xs[i := xs ! j])[j := xs ! i] ! i = xs ! j \<and>
         (xs[i := xs ! j])[j := xs ! i] ! j = xs ! i \<and>
         (\<forall>k < length xs. k \<noteq> i \<and> k \<noteq> j \<longrightarrow> (xs[i := xs ! j])[j := xs ! i] ! k = xs ! k)"
  using assms by (auto simp: nth_list_update)

lemma troca_distinta:
  assumes "i < length xs" and "j < length xs" and "i \<noteq> j" and "distinct xs"
  shows "{k. k < length xs \<and> (xs[i := xs ! j])[j := xs ! i] ! k \<noteq> xs ! k} = {i, j}"
proof -
  from assms have "xs ! i \<noteq> xs ! j" by (simp add: nth_eq_iff_index_eq)
  with assms show ?thesis by (auto simp: nth_list_update)
qed

text \<open>
  C8. For a tour of length at least 2 (and a generator that keeps its contract)
  \<^verbatim>\<open>perturbar\<close> returns a new list: its address is fresh, and the input list and every
  other list that existed are unchanged. The new list has the length of the input, holds at
  the two sampled positions \<open>i\<close> and \<open>j\<close> each other's former values and agrees with the
  input elsewhere; the two positions are those of \<^verbatim>\<open>random.sample(range(n), 2)\<close>, different
  by the generator's contract, and for a tour without repeated cities exactly these two
  positions change. A tour shorter than 2 raises ValueError.
\<close>

theorem perturbar_troca_duas_posicoes:
  assumes "solucao < proximo h"
  shows "(gerador_ok rnd \<and> 2 \<le> length (celulas h solucao) \<longrightarrow>
            (\<exists>h' nova g'. perturbar_h rnd g h solucao = Inr (h', nova, g'))) \<and>
         (length (celulas h solucao) < 2 \<longrightarrow> perturbar_h rnd g h solucao = Inl ValueError) \<and>
         (\<forall>h' nova g'. perturbar_h rnd g h solucao = Inr (h', nova, g') \<longrightarrow>
            nova = proximo h \<and>
            (\<forall>a < proximo h. celulas h' a = celulas h a) \<and>
            celulas h' solucao = celulas h solucao \<and>
            perturbar rnd g (celulas h solucao) = Inr (celulas h' nova, g') \<and>
            length (celulas h' nova) = length (celulas h solucao) \<and>
            (\<exists>i j. sample2 rnd g (length (celulas h solucao)) = ((i, j), g') \<and>
               i < length (celulas h solucao) \<and> j < length (celulas h solucao) \<and>
               (gerador_ok rnd \<longrightarrow> i \<noteq> j) \<and>
               celulas h' nova ! i = celulas h solucao ! j \<and>
               celulas h' nova ! j = celulas h solucao ! i \<and>
               (\<forall>k < length (celulas h solucao). k \<noteq> i \<and> k \<noteq> j \<longrightarrow>
                  celulas h' nova ! k = celulas h solucao ! k) \<and>
               (gerador_ok rnd \<and> distinct (celulas h solucao) \<longrightarrow>
                  {k. k < length (celulas h solucao) \<and>
                      celulas h' nova ! k \<noteq> celulas h solucao ! k} = {i, j} \<and>
                  card {k. k < length (celulas h solucao) \<and>
                      celulas h' nova ! k \<noteq> celulas h solucao ! k} = 2)))"
proof -
  let ?T = "celulas h solucao"
  have total: "gerador_ok rnd \<and> 2 \<le> length ?T \<longrightarrow>
      (\<exists>h' nova g'. perturbar_h rnd g h solucao = Inr (h', nova, g'))"
  proof
    assume "gerador_ok rnd \<and> 2 \<le> length ?T"
    then have "gerador_ok rnd" "2 \<le> length ?T" by simp_all
    from perturbar_total [OF this, of g] obtain ys g'
      where "perturbar rnd g ?T = Inr (ys, g')" by blast
    then show "\<exists>h' nova g'. perturbar_h rnd g h solucao = Inr (h', nova, g')"
      by (simp add: perturbar_h_simula [OF assms])
  qed
  have curta: "length ?T < 2 \<longrightarrow> perturbar_h rnd g h solucao = Inl ValueError"
    by (simp add: perturbar_h_simula [OF assms] perturbar_def sample_def)
  have troca: "\<forall>h' nova g'. perturbar_h rnd g h solucao = Inr (h', nova, g') \<longrightarrow>
            nova = proximo h \<and>
            (\<forall>a < proximo h. celulas h' a = celulas h a) \<and>
            celulas h' solucao = ?T \<and>
            perturbar rnd g ?T = Inr (celulas h' nova, g') \<and>
            length (celulas h' nova) = length ?T \<and>
            (\<exists>i j. sample2 rnd g (length ?T) = ((i, j), g') \<and>
               i < length ?T \<and> j < length ?T \<and>
               (gerador_ok rnd \<longrightarrow> i \<noteq> j) \<and>
               celulas h' nova ! i = ?T ! j \<and>
               celulas h' nova ! j = ?T ! i \<and>
               (\<forall>k < length ?T. k \<noteq> i \<and> k \<noteq> j \<longrightarrow>
                  celulas h' nova ! k = ?T ! k) \<and>
               (gerador_ok rnd \<and> distinct ?T \<longrightarrow>
                  {k. k < length ?T \<and> celulas h' nova ! k \<noteq> ?T ! k} = {i, j} \<and>
                  card {k. k < length ?T \<and> celulas h' nova ! k \<noteq> ?T ! k} = 2))"
  proof (intro allI impI)
    fix h' nova g'
    assume r: "perturbar_h rnd g h solucao = Inr (h', nova, g')"
    from r obtain ys
      where p: "perturbar rnd g ?T = Inr (ys, g')"
        and h': "h' = gravar (fst (copiar h solucao)) (proximo h) ys"
        and n: "nova = proximo h"
      by (auto simp: perturbar_h_simula [OF assms] split: sum.splits)
    from h' have c: "celulas h' = (celulas h)(proximo h := ys)"
      by (simp add: gravar_def copiar_def)
    from c n have ys: "celulas h' nova = ys" by simp
    from p obtain i j
      where s: "sample2 rnd g (length ?T) = ((i, j), g')"
        and len: "2 \<le> length ?T"
        and i: "i < length ?T" and j: "j < length ?T"
        and e: "ys = (?T[i := ?T ! j])[j := ?T ! i]"
      by (auto simp: perturbar_Inr)
    note t = troca_posicoes [OF i j, folded e]
    from c have f: "\<forall>a < proximo h. celulas h' a = celulas h a" by simp
    from c assms have u: "celulas h' solucao = ?T" by simp
    from p ys have q: "perturbar rnd g ?T = Inr (celulas h' nova, g')" by simp
    from t ys have l: "length (celulas h' nova) = length ?T" by simp
    have ne: "gerador_ok rnd \<longrightarrow> i \<noteq> j"
      using gerador_ok_sample [OF _ len s] by blast
    have d: "gerador_ok rnd \<and> distinct ?T \<longrightarrow>
        {k. k < length ?T \<and> ys ! k \<noteq> ?T ! k} = {i, j} \<and>
        card {k. k < length ?T \<and> ys ! k \<noteq> ?T ! k} = 2"
    proof
      assume a: "gerador_ok rnd \<and> distinct ?T"
      with ne have ij: "i \<noteq> j" by simp
      from troca_distinta [OF i j ij] a
      have "{k. k < length ?T \<and> ys ! k \<noteq> ?T ! k} = {i, j}"
        by (simp add: e)
      with ij show "{k. k < length ?T \<and> ys ! k \<noteq> ?T ! k} = {i, j} \<and>
        card {k. k < length ?T \<and> ys ! k \<noteq> ?T ! k} = 2" by simp
    qed
    from s i j ne t d have x: "\<exists>i j. sample2 rnd g (length ?T) = ((i, j), g') \<and>
               i < length ?T \<and> j < length ?T \<and>
               (gerador_ok rnd \<longrightarrow> i \<noteq> j) \<and>
               ys ! i = ?T ! j \<and>
               ys ! j = ?T ! i \<and>
               (\<forall>k < length ?T. k \<noteq> i \<and> k \<noteq> j \<longrightarrow> ys ! k = ?T ! k) \<and>
               (gerador_ok rnd \<and> distinct ?T \<longrightarrow>
                  {k. k < length ?T \<and> ys ! k \<noteq> ?T ! k} = {i, j} \<and>
                  card {k. k < length ?T \<and> ys ! k \<noteq> ?T ! k} = 2)"
      by blast
    from n f u q l x show "nova = proximo h \<and>
            (\<forall>a < proximo h. celulas h' a = celulas h a) \<and>
            celulas h' solucao = ?T \<and>
            perturbar rnd g ?T = Inr (celulas h' nova, g') \<and>
            length (celulas h' nova) = length ?T \<and>
            (\<exists>i j. sample2 rnd g (length ?T) = ((i, j), g') \<and>
               i < length ?T \<and> j < length ?T \<and>
               (gerador_ok rnd \<longrightarrow> i \<noteq> j) \<and>
               celulas h' nova ! i = ?T ! j \<and>
               celulas h' nova ! j = ?T ! i \<and>
               (\<forall>k < length ?T. k \<noteq> i \<and> k \<noteq> j \<longrightarrow>
                  celulas h' nova ! k = ?T ! k) \<and>
               (gerador_ok rnd \<and> distinct ?T \<longrightarrow>
                  {k. k < length ?T \<and> celulas h' nova ! k \<noteq> ?T ! k} = {i, j} \<and>
                  card {k. k < length ?T \<and> celulas h' nova ! k \<noteq> ?T ! k} = 2))"
      unfolding ys by (intro conjI)
  qed
  from total curta troca show ?thesis by (intro conjI)
qed


theorem perturbar_troca_duas_posicoes_witness:
  "0 < proximo (memoria_de [0, 1, 2, 3]) \<and> gerador_ok contador \<and>
   2 \<le> length (celulas (memoria_de [0, 1, 2, 3]) 0) \<and>
   distinct (celulas (memoria_de [0, 1, 2, 3]) 0) \<and>
   sample2 contador 6 4 = ((2, 3), 7) \<and>
   (\<exists>h'. perturbar_h contador 6 (memoria_de [0, 1, 2, 3]) 0 = Inr (h', 1, 7) \<and>
      celulas h' 0 = [0, 1, 2, 3] \<and> celulas h' 1 = [0, 1, 3, 2])"
proof -
  let ?h = "memoria_de [0, 1, 2, 3]"
  have v: "0 < proximo ?h" by (simp add: memoria_de_def)
  have c: "celulas ?h 0 = [0, 1, 2, 3]" "proximo ?h = 1" by (simp_all add: memoria_de_def)
  have l: "2 \<le> length (celulas ?h 0)" and d: "distinct (celulas ?h 0)"
    by (simp_all add: memoria_de_def)
  have s: "sample2 contador 6 4 = ((2, 3), 7)" by code_simp
  have p: "perturbar contador 6 [0, 1, 2, 3] = Inr ([0, 1, 3, 2], 7)" by code_simp
  note t = perturbar_troca_duas_posicoes [OF v, of contador 6]
  from t gerador_ok_contador l obtain h' nova g'
    where r: "perturbar_h contador 6 ?h 0 = Inr (h', nova, g')" by blast
  with t have "nova = proximo ?h" "celulas h' 0 = celulas ?h 0"
    "perturbar contador 6 (celulas ?h 0) = Inr (celulas h' nova, g')" by blast+
  with c p have "nova = 1" "celulas h' 0 = [0, 1, 2, 3]" "celulas h' 1 = [0, 1, 3, 2]" "g' = 7"
    by simp_all
  with r v gerador_ok_contador l d s show ?thesis by blast
qed

section \<open>The controller: \<^verbatim>\<open>grasp\<close>\<close>

text \<open>
  The recorded best cost starts as \<^verbatim>\<open>float("inf")\<close> and is a cost of a tour afterwards;
  the recorded best tour starts as \<^verbatim>\<open>None\<close>.
\<close>

datatype 'a limite = Infinito | Finito 'a

text \<open>\<^verbatim>\<open>custo < melhor_custo\<close>, and the order on recorded costs used to state monotonicity.\<close>

fun menor_que :: "'a::linorder \<Rightarrow> 'a limite \<Rightarrow> bool" where
  "menor_que c Infinito = True"
| "menor_que c (Finito m) = (c < m)"

fun limite_le :: "'a::linorder limite \<Rightarrow> 'a limite \<Rightarrow> bool" where
  "limite_le x Infinito = True"
| "limite_le Infinito (Finito b) = False"
| "limite_le (Finito a) (Finito b) = (a \<le> b)"

text \<open>
  The body of \<^verbatim>\<open>for it in range(iteracoes)\<close> on the state
  \<open>(g, melhor_solucao, melhor_custo)\<close>: construction, local search, perturbation, local
  search again, the better of the two, and the update of the recorded best.
\<close>

definition grasp_iteracao ::
  "'g aleatorio \<Rightarrow> 'a::linordered_idom list list \<Rightarrow> real
     \<Rightarrow> 'g \<times> nat list option \<times> 'a limite \<Rightarrow> error + 'g \<times> nat list option \<times> 'a limite" where
  "grasp_iteracao rnd distancias alpha st =
     (case st of (g, melhor_solucao, melhor_custo) \<Rightarrow>
        (case construir_solucao rnd g distancias alpha of
           Inl e \<Rightarrow> Inl e
         | Inr (construida, g1) \<Rightarrow>
        (case busca_local construida distancias of
           Inl e \<Rightarrow> Inl e
         | Inr solucao \<Rightarrow>
        (case calcular_custo solucao distancias of
           Inl e \<Rightarrow> Inl e
         | Inr custo \<Rightarrow>
        (case perturbar rnd g1 solucao of
           Inl e \<Rightarrow> Inl e
         | Inr (perturbada, g2) \<Rightarrow>
        (case busca_local perturbada distancias of
           Inl e \<Rightarrow> Inl e
         | Inr solucao_perturbada \<Rightarrow>
        (case calcular_custo solucao_perturbada distancias of
           Inl e \<Rightarrow> Inl e
         | Inr custo_perturbado \<Rightarrow>
             (case (if custo_perturbado < custo then (solucao_perturbada, custo_perturbado)
                    else (solucao, custo)) of
                (escolhida, custo_escolhido) \<Rightarrow>
                  if menor_que custo_escolhido melhor_custo
                  then Inr (g2, Some escolhida, Finito custo_escolhido)
                  else Inr (g2, melhor_solucao, melhor_custo)))))))))"

text \<open>The loop over the values of \<^verbatim>\<open>it\<close>, and \<^verbatim>\<open>grasp\<close> itself.\<close>

fun grasp_laco ::
  "'g aleatorio \<Rightarrow> 'a::linordered_idom list list \<Rightarrow> real \<Rightarrow> nat list
     \<Rightarrow> 'g \<times> nat list option \<times> 'a limite \<Rightarrow> error + 'g \<times> nat list option \<times> 'a limite" where
  "grasp_laco rnd distancias alpha [] st = Inr st"
| "grasp_laco rnd distancias alpha (it # its) st =
     (case grasp_iteracao rnd distancias alpha st of
        Inl e \<Rightarrow> Inl e
      | Inr st' \<Rightarrow> grasp_laco rnd distancias alpha its st')"

definition grasp ::
  "'g aleatorio \<Rightarrow> 'g \<Rightarrow> 'a::linordered_idom list list \<Rightarrow> nat \<Rightarrow> real
     \<Rightarrow> error + (nat list option \<times> 'a limite) \<times> 'g" where
  "grasp rnd g distancias iteracoes alpha =
     (case grasp_laco rnd distancias alpha [0..<iteracoes] (g, None, Infinito) of
        Inl e \<Rightarrow> Inl e
      | Inr (g', melhor_solucao, melhor_custo) \<Rightarrow> Inr ((melhor_solucao, melhor_custo), g'))"


subsection \<open>Facts about the controller\<close>

lemma grasp_iteracao_Inr:
  assumes "grasp_iteracao rnd d alpha (g, ms, mc) = Inr (g', ms', mc')"
  shows "(ms' = ms \<and> mc' = mc) \<or>
         (\<exists>sol c. ms' = Some sol \<and> mc' = Finito c \<and> menor_que c mc \<and>
            calcular_custo sol d = Inr c)"
  using assms
  by (auto simp: grasp_iteracao_def split: sum.splits prod.splits if_splits)

lemma limite_le_refl: "limite_le x x"
  by (cases x) simp_all

lemma limite_le_trans: "limite_le x y \<Longrightarrow> limite_le y z \<Longrightarrow> limite_le x z"
  by (cases x; cases y; cases z) simp_all

lemma menor_que_le: "menor_que c mc \<Longrightarrow> limite_le (Finito c) mc"
  by (cases mc) simp_all

lemma grasp_laco_snoc:
  "grasp_laco rnd d alpha (its @ [it]) st =
     (case grasp_laco rnd d alpha its st of
        Inl e \<Rightarrow> Inl e
      | Inr st' \<Rightarrow> grasp_iteracao rnd d alpha st')"
  by (induction its arbitrary: st) (auto split: sum.splits)

lemma grasp_laco_append:
  "grasp_laco rnd d alpha (xs @ ys) st =
     (case grasp_laco rnd d alpha xs st of
        Inl e \<Rightarrow> Inl e
      | Inr st' \<Rightarrow> grasp_laco rnd d alpha ys st')"
  by (induction xs arbitrary: st) (auto split: sum.splits)

lemma grasp_iteracao_le:
  assumes "grasp_iteracao rnd d alpha (g, ms, mc) = Inr (g', ms', mc')"
  shows "limite_le mc' mc"
  using grasp_iteracao_Inr [OF assms] by (auto simp: limite_le_refl menor_que_le)

lemma grasp_laco_le:
  "grasp_laco rnd d alpha its (g, ms, mc) = Inr (g', ms', mc') \<Longrightarrow> limite_le mc' mc"
proof (induction its arbitrary: g ms mc)
  case Nil
  then show ?case by (simp add: limite_le_refl)
next
  case (Cons it its)
  from Cons.prems obtain g1 ms1 mc1
    where a: "grasp_iteracao rnd d alpha (g, ms, mc) = Inr (g1, ms1, mc1)"
      and b: "grasp_laco rnd d alpha its (g1, ms1, mc1) = Inr (g', ms', mc')"
    by (auto split: sum.splits)
  from Cons.IH [OF b] grasp_iteracao_le [OF a] show ?case by (rule limite_le_trans)
qed

lemma grasp_Suc:
  "grasp rnd g d (Suc n) alpha =
     (case grasp rnd g d n alpha of
        Inl e \<Rightarrow> Inl e
      | Inr ((ms, mc), g') \<Rightarrow>
          (case grasp_iteracao rnd d alpha (g', ms, mc) of
             Inl e \<Rightarrow> Inl e
           | Inr (g'', ms', mc') \<Rightarrow> Inr ((ms', mc'), g'')))"
  by (simp add: grasp_def grasp_laco_snoc split: sum.splits prod.splits)

lemma grasp_prefixo:
  assumes "k \<le> n" and "grasp rnd g d n alpha = Inr ((ms', mc'), g'')"
  shows "\<exists>ms mc g'. grasp rnd g d k alpha = Inr ((ms, mc), g') \<and> limite_le mc' mc"
proof -
  from assms(1) have "[0..<n] = [0..<k] @ [k..<n]"
    by (metis le_add_diff_inverse upt_add_eq_append zero_le)
  with assms(2) obtain g' ms mc
    where a: "grasp_laco rnd d alpha [0..<k] (g, None, Infinito) = Inr (g', ms, mc)"
      and b: "grasp_laco rnd d alpha [k..<n] (g', ms, mc) = Inr (g'', ms', mc')"
    by (auto simp: grasp_def grasp_laco_append split: sum.splits prod.splits)
  from a grasp_laco_le [OF b] show ?thesis by (simp add: grasp_def)
qed

text \<open>
  C5. \<^verbatim>\<open>grasp\<close> with a budget of 0 returns the initial pair (no tour, infinite cost); with
  a budget of \<open>n + 1\<close> it returns what one more iteration makes of the result for the budget
  \<open>n\<close>, so the pair returned is the one reached after exactly the budget's iterations.
  An iteration either keeps the recorded pair or replaces it by a tour and its cost, and
  only when that cost is strictly below the recorded one (any cost is below the initial
  infinity); so the recorded cost never increases, and the cost for a budget \<open>n\<close> is at most
  the cost for any smaller budget \<open>k\<close>.
\<close>

theorem grasp_melhor_global:
  "grasp rnd g distancias 0 alpha = Inr ((None, Infinito), g) \<and>
   grasp rnd g distancias (Suc n) alpha =
     (case grasp rnd g distancias n alpha of
        Inl e \<Rightarrow> Inl e
      | Inr ((ms, mc), g') \<Rightarrow>
          (case grasp_iteracao rnd distancias alpha (g', ms, mc) of
             Inl e \<Rightarrow> Inl e
           | Inr (g'', ms', mc') \<Rightarrow> Inr ((ms', mc'), g''))) \<and>
   (\<forall>g' ms mc g'' ms' mc'.
      grasp_iteracao rnd distancias alpha (g', ms, mc) = Inr (g'', ms', mc') \<longrightarrow>
        limite_le mc' mc \<and>
        ((ms' = ms \<and> mc' = mc) \<or>
         (\<exists>sol c. ms' = Some sol \<and> mc' = Finito c \<and> menor_que c mc \<and>
            calcular_custo sol distancias = Inr c))) \<and>
   (\<forall>k ms' mc' g''.
      k \<le> n \<and> grasp rnd g distancias n alpha = Inr ((ms', mc'), g'') \<longrightarrow>
        (\<exists>ms mc g'. grasp rnd g distancias k alpha = Inr ((ms, mc), g') \<and> limite_le mc' mc))"
proof -
  have a: "grasp rnd g distancias 0 alpha = Inr ((None, Infinito), g)"
    by (simp add: grasp_def)
  have b: "\<forall>g' ms mc g'' ms' mc'.
      grasp_iteracao rnd distancias alpha (g', ms, mc) = Inr (g'', ms', mc') \<longrightarrow>
        limite_le mc' mc \<and>
        ((ms' = ms \<and> mc' = mc) \<or>
         (\<exists>sol c. ms' = Some sol \<and> mc' = Finito c \<and> menor_que c mc \<and>
            calcular_custo sol distancias = Inr c))"
    using grasp_iteracao_le grasp_iteracao_Inr by (intro allI impI conjI)
  have c: "\<forall>k ms' mc' g''.
      k \<le> n \<and> grasp rnd g distancias n alpha = Inr ((ms', mc'), g'') \<longrightarrow>
        (\<exists>ms mc g'. grasp rnd g distancias k alpha = Inr ((ms, mc), g') \<and> limite_le mc' mc)"
    using grasp_prefixo by (intro allI impI) (elim conjE)
  from a grasp_Suc [of rnd g distancias n alpha] b c show ?thesis by (intro conjI)
qed

theorem grasp_melhor_global_witness:
  "grasp contador 3 retangulo 0 1 = Inr ((None, Infinito), 3) \<and>
   grasp contador 3 retangulo 1 1 = Inr ((Some [3, 2, 0, 1], Finito 16), 8) \<and>
   grasp contador 3 retangulo 2 1 = Inr ((Some [0, 1, 2, 3], Finito 14), 13) \<and>
   grasp contador 3 retangulo 3 1 = Inr ((Some [0, 1, 2, 3], Finito 14), 18) \<and>
   grasp_iteracao contador retangulo 1 (8, Some [3, 2, 0, 1], Finito 16)
     = Inr (13, Some [0, 1, 2, 3], Finito 14) \<and>
   limite_le (Finito 14) (Finito (16 :: int))"
proof -
  have r0: "grasp contador 3 retangulo 0 1 = Inr ((None, Infinito), 3)" by code_simp
  have r1: "grasp contador 3 retangulo 1 1 = Inr ((Some [3, 2, 0, 1], Finito 16), 8)"
    by code_simp
  have r2: "grasp contador 3 retangulo 2 1 = Inr ((Some [0, 1, 2, 3], Finito 14), 13)"
    by code_simp
  have r3: "grasp contador 3 retangulo 3 1 = Inr ((Some [0, 1, 2, 3], Finito 14), 18)"
    by code_simp
  have i: "grasp_iteracao contador retangulo 1 (8, Some [3, 2, 0, 1], Finito 16)
     = Inr (13, Some [0, 1, 2, 3], Finito 14)"
    by code_simp
  from grasp_melhor_global [of contador 3 retangulo 1 2] i
  have "limite_le (Finito 14) (Finito (16 :: int))" by blast
  with r0 r1 r2 r3 i show ?thesis by (intro conjI)
qed

end
